theory Spec2Isabelle
  imports Complex_Main "HOL-Library.Word" "HOL-Library.Multiset"
begin

section \<open>Floating-point rounding\<close>

text \<open>
  Both programs compute in binary floating point. A finite \<open>float\<close> or \<open>double\<close> is modelled
  by the real number it denotes, and an operation by the exact operation followed by rounding to
  the nearest value of the format, ties to even: \<open>round_bin p emin\<close> rounds to precision \<open>p\<close>
  with least exponent \<open>emin\<close> of the last place (so that small values underflow gradually);
  \<open>fl32\<close> is the rounding of \<open>float\<close>, \<open>fl64\<close> that of \<open>double\<close>. \<open>blen n\<close> is the number of
  binary digits of \<open>n\<close>, \<open>ilog2 x\<close> the exponent of the leading binary digit of \<open>x > 0\<close>, and
  \<open>rhe\<close> rounds a real number to the nearest integer, a half to the even one.
\<close>

fun blen :: "nat \<Rightarrow> nat" where
  "blen n = (if n = 0 then 0 else Suc (blen (n div 2)))"

declare blen.simps [simp del]

definition ilog2 :: "real \<Rightarrow> int" where
  "ilog2 x = (if 1 \<le> x then int (blen (nat \<lfloor>x\<rfloor>)) - 1
              else - int (blen (nat (\<lceil>1 / x\<rceil> - 1))))"

definition rhe :: "real \<Rightarrow> int" where
  "rhe x = (let f = \<lfloor>x\<rfloor>; d = x - of_int f
            in if d < 1 / 2 then f else if 1 / 2 < d then f + 1
               else if even f then f else f + 1)"

definition ulp_exp :: "nat \<Rightarrow> int \<Rightarrow> real \<Rightarrow> int" where
  "ulp_exp p emin x = max (ilog2 \<bar>x\<bar> - (int p - 1)) emin"

definition round_bin :: "nat \<Rightarrow> int \<Rightarrow> real \<Rightarrow> real" where
  "round_bin p emin x =
     (if x = 0 then 0
      else of_int (rhe (x / 2 powi ulp_exp p emin x)) * 2 powi ulp_exp p emin x)"

definition fl32 :: "real \<Rightarrow> real" where
  "fl32 x = round_bin 24 (- 149) x"

definition fl64 :: "real \<Rightarrow> real" where
  "fl64 x = round_bin 53 (- 1074) x"

section \<open>Balanced bootstrap sampler (boot.cc)\<close>

text \<open>
  The sampler is embedded with explicit state passing. A C++ \<open>int\<close> is an integer in the
  32-bit range; the result of an \<open>int\<close> operation is reduced to that range by \<open>wrap32\<close> (two's
  complement), which is what the compiled code does where the language leaves signed overflow
  undefined. A draw of the Mersenne Twister is taken from a sequence \<open>draws\<close> of values, indexed
  by the number of draws made so far.
\<close>

datatype error =
    InvalidArgument    \<comment> \<open>\<open>print_usage ()\<close> and \<open>mexErrMsgTxt\<close> on a bad argument\<close>
  | NumericError       \<comment> \<open>\<open>mexErrMsgTxt ("x cannot contain NaN or Inf")\<close>\<close>
  | BadDimension       \<comment> \<open>an array or \<open>int c[n]\<close> of negative size\<close>
  | DivByZero          \<comment> \<open>integer division by zero\<close>
  | OutOfBounds        \<comment> \<open>a read or write outside an array\<close>
  | SortPrecondition   \<comment> \<open>\<open>std::sort\<close> with a comparison that is not a strict weak ordering\<close>

datatype octave_value = Num int | Bool bool

fun int_value :: "octave_value \<Rightarrow> int" where
  "int_value (Num i) = i"
| "int_value (Bool b) = (if b then 1 else 0)"

fun bool_value :: "octave_value \<Rightarrow> bool" where
  "bool_value (Num i) = (i \<noteq> 0)"
| "bool_value (Bool b) = b"

definition INT_MAX :: int where
  "INT_MAX = 2147483647"

definition INT_MIN :: int where
  "INT_MIN = - 2147483648"

definition wrap32 :: "int \<Rightarrow> int" where
  \<comment> \<open>the value of an \<open>int\<close> expression: two's complement, 32 bits\<close>
  "wrap32 x = sint (word_of_int x :: 32 word)"

definition short_of_int :: "int \<Rightarrow> int" where
  \<comment> \<open>the narrowing \<open>const short int n = args(0).int_value ()\<close>\<close>
  "short_of_int x = sint (word_of_int x :: 16 word)"

definition trunc :: "real \<Rightarrow> int" where
  \<comment> \<open>the fraction is discarded\<close>
  "trunc x = (if 0 \<le> x then \<lfloor>x\<rfloor> else \<lceil>x\<rceil>)"

definition int_of_float :: "real \<Rightarrow> int" where
  \<comment> \<open>conversion of a floating value to \<open>int\<close>; a value that does not fit gives \<open>INT_MIN\<close>,
      as the conversion instruction of x86 does\<close>
  "int_of_float x = (if real_of_int INT_MIN - 1 < x \<and> x < real_of_int INT_MAX + 1 then trunc x else INT_MIN)"

record boot_state =
  c_cnt :: "int list"       \<comment> \<open>\<open>int c[n]\<close>\<close>
  N_tot :: int              \<comment> \<open>\<open>int N\<close>\<close>
  m_loo :: int              \<comment> \<open>\<open>int m\<close>\<close>
  LOO :: bool
  bootsam :: "int list"     \<comment> \<open>the \<open>n x nboot\<close> array, column-major: \<open>bootsam(i, b)\<close> is entry \<open>i + b * n\<close>\<close>
  rng :: nat                \<comment> \<open>number of values drawn from the generator\<close>

text \<open>The cumulative-sum walk \<open>for (int j = 0; j < n; j++)\<close>, entered with \<open>d = c[0]\<close>.\<close>

function walk :: "nat \<Rightarrow> int \<Rightarrow> nat \<Rightarrow> nat \<Rightarrow> nat \<Rightarrow> int \<Rightarrow> boot_state \<Rightarrow> error + boot_state" where
  "walk n k i b j d st =
     (if j < n then
        (if k < d then
           Inr (st\<lparr>bootsam := (bootsam st)[i + b * n := int j + 1],
                   c_cnt := (c_cnt st)[j := wrap32 (c_cnt st ! j - 1)],
                   N_tot := wrap32 (N_tot st - 1)\<rparr>)
         else if j + 1 < length (c_cnt st)
           then walk n k i b (j + 1) (wrap32 (d + c_cnt st ! (j + 1))) st
           else Inl OutOfBounds)
      else Inr st)"
  by pat_completeness auto
termination
  by (relation "measure (\<lambda>(n, k, i, b, j, d, st). n - j)") auto

declare walk.simps [simp del]

text \<open>One pass of the body of \<open>for (int i = 0; i < n; i++)\<close>.\<close>

definition loo_enter :: "bool \<Rightarrow> nat \<Rightarrow> boot_state \<Rightarrow> boot_state" where
  "loo_enter u r st =
     (if u \<and> c_cnt st ! r \<noteq> N_tot st
      then st\<lparr>m_loo := c_cnt st ! r, c_cnt := (c_cnt st)[r := 0], LOO := True\<rparr>
      else st)"

definition loo_leave :: "nat \<Rightarrow> boot_state \<Rightarrow> boot_state" where
  "loo_leave r st =
     (if LOO st
      then st\<lparr>c_cnt := (c_cnt st)[r := m_loo st], m_loo := 0, LOO := False\<rparr>
      else st)"

text \<open>
  \<open>k = dist(rng) * (N - m)\<close>: the \<open>int\<close> difference is converted to \<open>float\<close>, multiplied by the
  \<open>float\<close> draw in \<open>float\<close> arithmetic, and the product is converted to \<open>int\<close>.
\<close>

definition draw_k :: "(nat \<Rightarrow> real) \<Rightarrow> boot_state \<Rightarrow> int" where
  "draw_k draws st =
     int_of_float (fl32 (draws (rng st) * fl32 (real_of_int (wrap32 (N_tot st - m_loo st)))))"

definition row_body :: "(nat \<Rightarrow> real) \<Rightarrow> bool \<Rightarrow> nat \<Rightarrow> nat \<Rightarrow> nat \<Rightarrow> nat \<Rightarrow> boot_state \<Rightarrow> error + boot_state" where
  "row_body draws u n r b i st =
     (let st1 = loo_enter u r st;
          k = draw_k draws st1;
          st2 = st1\<lparr>rng := rng st1 + 1\<rparr>
      in case walk n k i b 0 (c_cnt st2 ! 0) st2 of
           Inl e \<Rightarrow> Inl e
         | Inr st3 \<Rightarrow> Inr (loo_leave r st3))"

function rows_loop :: "(nat \<Rightarrow> real) \<Rightarrow> bool \<Rightarrow> nat \<Rightarrow> nat \<Rightarrow> nat \<Rightarrow> nat \<Rightarrow> boot_state \<Rightarrow> error + boot_state" where
  "rows_loop draws u n r b i st =
     (if i < n then
        (case row_body draws u n r b i st of
           Inl e \<Rightarrow> Inl e
         | Inr st' \<Rightarrow> rows_loop draws u n r b (i + 1) st')
      else Inr st)"
  by pat_completeness auto
termination
  by (relation "measure (\<lambda>(draws, u, n, r, b, i, st). n - i)") auto

declare rows_loop.simps [simp del]

text \<open>
  The loop \<open>for (int b = 0; b < nboot; b++)\<close>. In unbiased mode \<open>r = b - (b / n) * n\<close>
  divides by \<open>n\<close>; otherwise \<open>r\<close> keeps its initial value and is never used as an index
  (the model writes 0 for it).
\<close>

definition loo_index :: "bool \<Rightarrow> nat \<Rightarrow> nat \<Rightarrow> nat" where
  "loo_index u n b = (if u then b - (b div n) * n else 0)"

function cols_loop :: "(nat \<Rightarrow> real) \<Rightarrow> bool \<Rightarrow> nat \<Rightarrow> nat \<Rightarrow> nat \<Rightarrow> boot_state \<Rightarrow> error + boot_state" where
  "cols_loop draws u n nboot b st =
     (if b < nboot then
        (if u \<and> n = 0 then Inl DivByZero
         else
           (case rows_loop draws u n (loo_index u n b) b 0 st of
              Inl e \<Rightarrow> Inl e
            | Inr st' \<Rightarrow> cols_loop draws u n nboot (b + 1) st'))
      else Inr st)"
  by pat_completeness auto
termination
  by (relation "measure (\<lambda>(draws, u, n, nboot, b, st). nboot - b)") auto

declare cols_loop.simps [simp del]

record int16NDArray =
  rows :: nat
  columns :: nat
  elems :: "int list"

definition init_state :: "nat \<Rightarrow> nat \<Rightarrow> boot_state" where
  \<comment> \<open>the variables before the loops: \<open>int N = n * nboot\<close> is a 32-bit product\<close>
  "init_state n nboot =
     \<lparr>c_cnt = replicate n (int nboot), N_tot = wrap32 (int n * int nboot), m_loo = 0, LOO = False,
      bootsam = replicate (n * nboot) 0, rng = 0\<rparr>"

definition boot :: "octave_value list \<Rightarrow> (nat \<Rightarrow> real) \<Rightarrow> error + int16NDArray" where
  "boot args draws =
     (if length args \<noteq> 3 then Inl InvalidArgument
      else
        let n = short_of_int (int_value (args ! 0));
            nboot = int_value (args ! 1);
            u = bool_value (args ! 2)
        in if n < 0 \<or> nboot < 0 then Inl BadDimension
           else
             (case cols_loop draws u (nat n) (nat nboot) 0 (init_state (nat n) (nat nboot)) of
                Inl e \<Rightarrow> Inl e
              | Inr st \<Rightarrow> Inr \<lparr>rows = nat n, columns = nat nboot, elems = bootsam st\<rparr>))"

text \<open>
  The state before draw number \<open>t\<close> of a run (draw \<open>t\<close> fills row \<open>t mod n\<close> of
  column \<open>t div n\<close>), used to speak about every single draw of the two nested loops.
\<close>

fun boot_prefix :: "(nat \<Rightarrow> real) \<Rightarrow> bool \<Rightarrow> nat \<Rightarrow> nat \<Rightarrow> nat \<Rightarrow> error + boot_state" where
  "boot_prefix draws u n nboot 0 = Inr (init_state n nboot)"
| "boot_prefix draws u n nboot (Suc t) =
     (case boot_prefix draws u n nboot t of
        Inl e \<Rightarrow> Inl e
      | Inr st \<Rightarrow> row_body draws u n (loo_index u n (t div n)) (t div n) (t mod n) st)"

definition boot_inv :: "nat \<Rightarrow> nat \<Rightarrow> nat \<Rightarrow> boot_state \<Rightarrow> bool" where
  "boot_inv n nboot t st \<longleftrightarrow>
     length (c_cnt st) = n \<and> (\<forall>j<n. 0 \<le> c_cnt st ! j) \<and>
     sum_list (c_cnt st) = N_tot st \<and> N_tot st = int (n * nboot) - int t \<and>
     m_loo st = 0 \<and> \<not> LOO st \<and> rng st = t \<and>
     length (bootsam st) = n * nboot \<and>
     (\<forall>p<n * nboot. t \<le> p \<longrightarrow> bootsam st ! p = 0) \<and>
     (\<forall>p<t. 1 \<le> bootsam st ! p \<and> bootsam st ! p \<le> int n) \<and>
     (\<forall>j<n. int (count_list (bootsam st) (int j + 1)) + c_cnt st ! j = int nboot)"

text \<open>
  The states of a run whose product \<open>n * nboot\<close> has wrapped, after \<open>N\<close> has come back into
  step with the counters: \<open>c[0]\<close> is negative, the other counters are not, and the matrix starts
  with \<open>ones\<close> entries 1 and holds no other 1.
\<close>

definition wrapped_inv :: "nat \<Rightarrow> nat \<Rightarrow> nat \<Rightarrow> nat \<Rightarrow> boot_state \<Rightarrow> bool" where
  "wrapped_inv n nboot ones t st \<longleftrightarrow>
     length (c_cnt st) = n \<and> c_cnt st ! 0 < 0 \<and> INT_MIN < c_cnt st ! 0 \<and>
     (\<forall>j<n. 0 < j \<longrightarrow> 0 \<le> c_cnt st ! j) \<and> (\<forall>j<n. c_cnt st ! j \<le> int nboot) \<and>
     sum_list (c_cnt st) = N_tot st \<and> N_tot st = int (n * nboot) - int t \<and>
     m_loo st = 0 \<and> \<not> LOO st \<and> rng st = t \<and>
     (\<exists>rest. bootsam st = replicate ones 1 @ rest \<and> 1 \<notin> set rest \<and>
             length rest = n * nboot - ones)"

definition is_float32 :: "real \<Rightarrow> bool" where
  \<comment> \<open>the values of type \<open>float\<close>\<close>
  "is_float32 x \<longleftrightarrow> fl32 x = x"

definition half_draws :: "nat \<Rightarrow> real" where
  "half_draws t = 1 / 2"

section \<open>Smoothed median (smoothmedian.cpp)\<close>

text \<open>
  A \<open>double\<close> is a real number or one of the three special values. Arithmetic on the special
  values follows IEEE 754. A finite result is rounded to the nearest \<open>double\<close> (ties to even,
  gradual underflow) by \<open>fl64\<close>, and a rounded result beyond \<open>DBL_MAX\<close> is an infinity. The
  sign of a zero is not kept: every divisor in the code is a square root, a square or a sum of
  non-negative terms, so a zero divisor is \<open>+0\<close>. A NaN compares false with everything.
\<close>

datatype double = Fin real | PInf | MInf | NaN

definition DBL_MAX :: real where
  "DBL_MAX = 2 ^ 1024 - 2 ^ 971"

definition rnd :: "real \<Rightarrow> double" where
  "rnd x = (let y = fl64 x in if DBL_MAX < y then PInf else if y < - DBL_MAX then MInf else Fin y)"

fun mxIsFinite :: "double \<Rightarrow> bool" where
  "mxIsFinite (Fin x) = True"
| "mxIsFinite _ = False"

fun dneg :: "double \<Rightarrow> double" where
  "dneg (Fin x) = Fin (- x)"
| "dneg PInf = MInf"
| "dneg MInf = PInf"
| "dneg NaN = NaN"

fun dadd :: "double \<Rightarrow> double \<Rightarrow> double" where
  "dadd (Fin x) (Fin y) = rnd (x + y)"
| "dadd NaN _ = NaN"
| "dadd _ NaN = NaN"
| "dadd PInf MInf = NaN"
| "dadd MInf PInf = NaN"
| "dadd PInf _ = PInf"
| "dadd _ PInf = PInf"
| "dadd MInf _ = MInf"
| "dadd _ MInf = MInf"

definition dsub :: "double \<Rightarrow> double \<Rightarrow> double" where
  "dsub x y = dadd x (dneg y)"

definition inf_of_sign :: "bool \<Rightarrow> double" where
  "inf_of_sign positive = (if positive then PInf else MInf)"

fun dmul :: "double \<Rightarrow> double \<Rightarrow> double" where
  "dmul (Fin x) (Fin y) = rnd (x * y)"
| "dmul NaN _ = NaN"
| "dmul _ NaN = NaN"
| "dmul PInf (Fin y) = (if y = 0 then NaN else inf_of_sign (0 < y))"
| "dmul MInf (Fin y) = (if y = 0 then NaN else inf_of_sign (y < 0))"
| "dmul (Fin x) PInf = (if x = 0 then NaN else inf_of_sign (0 < x))"
| "dmul (Fin x) MInf = (if x = 0 then NaN else inf_of_sign (x < 0))"
| "dmul PInf PInf = PInf"
| "dmul MInf MInf = PInf"
| "dmul PInf MInf = MInf"
| "dmul MInf PInf = MInf"

fun ddiv :: "double \<Rightarrow> double \<Rightarrow> double" where
  "ddiv (Fin x) (Fin y) =
     (if y = 0 then (if x = 0 then NaN else inf_of_sign (0 < x)) else rnd (x / y))"
| "ddiv NaN _ = NaN"
| "ddiv _ NaN = NaN"
| "ddiv (Fin x) PInf = Fin 0"
| "ddiv (Fin x) MInf = Fin 0"
| "ddiv PInf (Fin y) = inf_of_sign (0 \<le> y)"
| "ddiv MInf (Fin y) = inf_of_sign (y < 0)"
| "ddiv PInf PInf = NaN"
| "ddiv PInf MInf = NaN"
| "ddiv MInf PInf = NaN"
| "ddiv MInf MInf = NaN"

fun dsqrt :: "double \<Rightarrow> double" where
  "dsqrt (Fin x) = (if x < 0 then NaN else Fin (fl64 (sqrt x)))"
| "dsqrt PInf = PInf"
| "dsqrt MInf = NaN"
| "dsqrt NaN = NaN"

definition pow2 :: "double \<Rightarrow> double" where
  \<comment> \<open>\<open>pow (x, 2)\<close>, the correctly rounded square\<close>
  "pow2 x = dmul x x"

fun dabs :: "double \<Rightarrow> double" where
  "dabs (Fin x) = Fin \<bar>x\<bar>"
| "dabs PInf = PInf"
| "dabs MInf = PInf"
| "dabs NaN = NaN"

fun dlt :: "double \<Rightarrow> double \<Rightarrow> bool" where
  "dlt (Fin x) (Fin y) = (x < y)"
| "dlt NaN _ = False"
| "dlt _ NaN = False"
| "dlt _ MInf = False"
| "dlt PInf _ = False"
| "dlt MInf _ = True"
| "dlt _ PInf = True"

definition dle :: "double \<Rightarrow> double \<Rightarrow> bool" where
  "dle x y = (dlt x y \<or> (x = y \<and> x \<noteq> NaN))"

definition short_of_double :: "double \<Rightarrow> int" where
  \<comment> \<open>the conversion \<open>short int dim = *(mxGetPr (prhs[1]))\<close>, as compiled for x86-64: the
      value is converted to a 32-bit \<open>int\<close> with the fraction discarded (\<open>INT_MIN\<close> for a NaN, an
      infinity or a value that does not fit), of which the low 16 bits are kept\<close>
  "short_of_double x =
     short_of_int (case x of Fin v \<Rightarrow> int_of_float v | _ \<Rightarrow> INT_MIN)"

record mxArray =
  sz0 :: nat               \<comment> \<open>\<open>mxGetDimensions (.)[0]\<close>\<close>
  sz1 :: nat               \<comment> \<open>\<open>mxGetDimensions (.)[1]\<close>\<close>
  pr :: "double list"      \<comment> \<open>the data, column-major\<close>

definition first_elem :: "mxArray \<Rightarrow> error + double" where
  \<comment> \<open>\<open>*(mxGetPr (.))\<close>\<close>
  "first_elem arr = (case pr arr of [] \<Rightarrow> Inl OutOfBounds | v # _ \<Rightarrow> Inr v)"

text \<open>
  \<open>std::sort\<close> with \<open><\<close> on doubles. On a vector without a NaN the result is the sorted
  vector, written as an insertion sort. A vector of NaNs only is left as it is: no comparison
  holds. On a vector that holds a NaN and a number, \<open><\<close> is not a strict weak ordering of
  distinguishable values and the language does not define the order that \<open>std::sort\<close> leaves;
  the model stops there with \<open>SortPrecondition\<close>.
\<close>

fun dinsert :: "double \<Rightarrow> double list \<Rightarrow> double list" where
  "dinsert x [] = [x]"
| "dinsert x (y # ys) = (if dlt y x then y # dinsert x ys else x # y # ys)"

definition dsort :: "double list \<Rightarrow> double list" where
  "dsort xs = foldr dinsert xs []"

definition std_sort :: "double list \<Rightarrow> error + double list" where
  "std_sort xs =
     (if NaN \<notin> set xs then Inr (dsort xs)
      else if list_all (\<lambda>x. x = NaN) xs then Inr xs
      else Inl SortPrecondition)"

definition one_e_minus_4 :: real where
  \<comment> \<open>the \<open>double\<close> constant \<open>1e-4\<close>\<close>
  "one_e_minus_4 = fl64 (1 / 10000)"

definition MaxIter :: nat where
  "MaxIter = 19"

text \<open>One pair \<open>(i, j)\<close> of the derivative sums.\<close>

definition pair_terms :: "double list \<Rightarrow> double \<Rightarrow> nat \<Rightarrow> nat \<Rightarrow> double \<times> double \<Rightarrow> double \<times> double" where
  "pair_terms xvec Mk j i TU =
     (let D = dadd (pow2 (dsub (xvec ! i) Mk)) (pow2 (dsub (xvec ! j) Mk));
          R = dsqrt D
      in if D \<noteq> Fin 0
         then (dadd (fst TU) (ddiv (dsub (dsub (dmul (Fin 2) Mk) (xvec ! i)) (xvec ! j)) R),
               dadd (snd TU) (ddiv (dmul (pow2 (dsub (xvec ! i) (xvec ! j))) R) (pow2 D)))
         else TU)"

text \<open>The loop \<open>for (int j = 0; j < m; j++)\<close> with its finiteness check and inner loop over \<open>i < j\<close>.\<close>

function derivatives :: "double list \<Rightarrow> double \<Rightarrow> nat \<Rightarrow> double \<times> double \<Rightarrow> error + double \<times> double" where
  "derivatives xvec Mk j TU =
     (if j < length xvec then
        (if \<not> mxIsFinite (xvec ! j) then Inl NumericError
         else derivatives xvec Mk (j + 1) (fold (pair_terms xvec Mk j) [0..<j] TU))
      else Inr TU)"
  by pat_completeness auto
termination
  by (relation "measure (\<lambda>(xvec, Mk, j, TU). length xvec - j)") auto

declare derivatives.simps [simp del]

record newton_state =
  a_bnd :: double          \<comment> \<open>\<open>a\<close>\<close>
  b_bnd :: double          \<comment> \<open>\<open>b\<close>\<close>
  range_ab :: double       \<comment> \<open>\<open>range\<close>\<close>
  M_k :: double            \<comment> \<open>\<open>M[k]\<close>\<close>
  Iter :: nat
  warned :: bool           \<comment> \<open>whether the warning has been printed\<close>

datatype step_result = Break | Raise error | Continue newton_state

text \<open>The body of the iteration up to and including the update of \<open>M[k]\<close>.\<close>

definition newton_step :: "double list \<Rightarrow> double \<Rightarrow> newton_state \<Rightarrow> step_result" where
  "newton_step xvec Tol st =
     (if dle (range_ab st) Tol then Break
      else
        (case derivatives xvec (M_k st) 0 (Fin 0, Fin 0) of
           Inl e \<Rightarrow> Raise e
         | Inr TU \<Rightarrow>
             let step = ddiv (fst TU) (snd TU) in
             if dlt (dabs step) Tol then Break
             else
               let a' = (if dlt step (Fin 0) then M_k st else a_bnd st);
                   b' = (if \<not> dlt step (Fin 0) \<and> dlt (Fin 0) step then M_k st else b_bnd st);
                   nwt = dsub (M_k st) step
               in Continue (st\<lparr>a_bnd := a', b_bnd := b', range_ab := dsub b' a',
                                M_k := (if dlt a' nwt \<and> dlt nwt b' then nwt
                                        else dmul (Fin (1 / 2)) (dadd a' b'))\<rparr>)))"

text \<open>
  The loop \<open>for (int Iter = 0; Iter <= MaxIter; Iter++)\<close>; the warning is printed at the end of
  the body of the last iteration.
\<close>

function newton_loop :: "double list \<Rightarrow> double \<Rightarrow> newton_state \<Rightarrow> error + newton_state" where
  "newton_loop xvec Tol st =
     (if Iter st \<le> MaxIter then
        (case newton_step xvec Tol st of
           Break \<Rightarrow> Inr st
         | Raise e \<Rightarrow> Inl e
         | Continue st' \<Rightarrow>
             newton_loop xvec Tol
               (st'\<lparr>warned := (warned st' \<or> Iter st' = MaxIter), Iter := Iter st' + 1\<rparr>))
      else Inr st)"
  by pat_completeness auto
termination
proof (relation "measure (\<lambda>(xvec, Tol, st). MaxIter + 1 - Iter st)")
  show "wf (measure (\<lambda>(xvec, Tol, st). MaxIter + 1 - Iter st))" by simp
next
  fix xvec Tol st st'
  assume "Iter st \<le> MaxIter" "newton_step xvec Tol st = Continue st'"
  then have "Iter st' = Iter st"
    by (auto simp: newton_step_def Let_def split: if_splits sum.splits)
  with \<open>Iter st \<le> MaxIter\<close>
  show "((xvec, Tol, st'\<lparr>warned := warned st' \<or> Iter st' = MaxIter, Iter := Iter st' + 1\<rparr>),
         (xvec, Tol, st)) \<in> measure (\<lambda>(xvec, Tol, st). MaxIter + 1 - Iter st)"
    by simp
qed

declare newton_loop.simps [simp del]

text \<open>
  The starting value. \<open>float mid = 0.5 * m\<close> is the product rounded to \<open>float\<close>; the index is
  \<open>int (mid)\<close>, and the branch for an even length is taken when \<open>mid == int (mid)\<close>, compared
  in \<open>float\<close>. A read outside \<open>xvec\<close> is \<open>OutOfBounds\<close>.
\<close>

definition median_start :: "double list \<Rightarrow> error + double" where
  "median_start xvec =
     (let m = length xvec;
          mid = fl32 (1 / 2 * real m);
          i = int_of_float mid
      in if i < 0 \<or> int m \<le> i then Inl OutOfBounds
         else if mid = fl32 (real_of_int i)
           then (if i < 1 then Inl OutOfBounds
                 else Inr (dmul (dadd (xvec ! nat i) (xvec ! nat (i - 1))) (Fin (1 / 2))))
           else Inr (xvec ! nat i))"

definition copy_vector :: "mxArray \<Rightarrow> int \<Rightarrow> nat \<Rightarrow> nat \<Rightarrow> nat \<Rightarrow> error + double list" where
  \<comment> \<open>the copy of column \<open>k\<close> (\<open>dim == 1\<close>) or row \<open>k\<close> (\<open>dim == 2\<close>) into \<open>xvec\<close>\<close>
  "copy_vector x dim' m n k =
     (let idx = (if dim' = 1 then map (\<lambda>j. k * m + j) [0..<m] else map (\<lambda>j. j * n + k) [0..<m])
      in if list_all (\<lambda>p. p < length (pr x)) idx then Inr (map (\<lambda>p. pr x ! p) idx)
         else Inl OutOfBounds)"

definition solve_vector :: "double option \<Rightarrow> double list \<Rightarrow> error + newton_state" where
  "solve_vector TolArg xs =
     (case std_sort xs of
        Inl e \<Rightarrow> Inl e
      | Inr xvec \<Rightarrow>
          (case median_start xvec of
             Inl e \<Rightarrow> Inl e
           | Inr M0 \<Rightarrow>
               let a = xvec ! 0;
                   b = xvec ! (length xvec - 1);
                   range = dsub b a;
                   Tol = (case TolArg of None \<Rightarrow> dmul range (Fin one_e_minus_4) | Some v \<Rightarrow> v)
               in newton_loop xvec Tol
                    \<lparr>a_bnd = a, b_bnd = b, range_ab = range, M_k = M0, Iter = 0, warned = False\<rparr>))"

text \<open>
  The loop \<open>for (int k = 0; k < n; k++)\<close>, collecting the values \<open>M[k]\<close> and the indices
  \<open>k + 1\<close> printed in warnings.
\<close>

function vectors_loop :: "mxArray \<Rightarrow> int \<Rightarrow> nat \<Rightarrow> nat \<Rightarrow> double option \<Rightarrow> nat \<Rightarrow>
    double list \<times> nat list \<Rightarrow> error + double list \<times> nat list" where
  "vectors_loop x dim' m n TolArg k out =
     (if k < n then
        (case copy_vector x dim' m n k of
           Inl e \<Rightarrow> Inl e
         | Inr xs \<Rightarrow>
             (case solve_vector TolArg xs of
                Inl e \<Rightarrow> Inl e
              | Inr st \<Rightarrow>
                  vectors_loop x dim' m n TolArg (k + 1)
                    (fst out @ [M_k st], if warned st then snd out @ [k + 1] else snd out)))
      else Inr out)"
  by pat_completeness auto
termination
  by (relation "measure (\<lambda>(x, dim', m, n, TolArg, k, out). n - k)") auto

declare vectors_loop.simps [simp del]

definition read_dim :: "mxArray list \<Rightarrow> error + int" where
  \<comment> \<open>\<open>dim\<close> as assigned before its check\<close>
  "read_dim prhs =
     (if length prhs < 2 then Inr 1
      else (case first_elem (prhs ! 1) of Inl e \<Rightarrow> Inl e | Inr v \<Rightarrow> Inr (short_of_double v)))"

definition read_Tol :: "mxArray list \<Rightarrow> error + double option" where
  \<comment> \<open>\<open>Tol\<close> as supplied, if \<open>nrhs > 2\<close>\<close>
  "read_Tol prhs =
     (if 2 < length prhs
      then (case first_elem (prhs ! 2) of Inl e \<Rightarrow> Inl e | Inr v \<Rightarrow> Inr (Some v))
      else Inr None)"

definition smooth_all :: "mxArray \<Rightarrow> int \<Rightarrow> double option \<Rightarrow> error + mxArray \<times> nat list" where
  \<comment> \<open>the part of \<open>mexFunction\<close> after the arguments are read: lines 103 to 224\<close>
  "smooth_all x dim0 TolArg =
     (let dim' = (if sz0 x = 1 then 2 else dim0);
          m = (if dim' = 1 then sz0 x else sz1 x);
          n = (if dim' = 1 then sz1 x else sz0 x)
      in (case vectors_loop x dim' m n TolArg 0 ([], []) of
            Inl e \<Rightarrow> Inl e
          | Inr out \<Rightarrow>
              Inr (\<lparr>sz0 = (if dim' = 1 then 1 else n),
                    sz1 = (if dim' = 1 then n else 1),
                    pr = fst out\<rparr>, snd out)))"

definition mexFunction :: "mxArray list \<Rightarrow> error + mxArray \<times> nat list" where
  "mexFunction prhs =
     (if length prhs < 1 then Inl InvalidArgument
      else
        (case read_dim prhs of
           Inl e \<Rightarrow> Inl e
         | Inr dim0 \<Rightarrow>
             (if dim0 \<noteq> 1 \<and> dim0 \<noteq> 2 then Inl InvalidArgument
              else (case read_Tol prhs of
                      Inl e \<Rightarrow> Inl e
                    | Inr TolArg \<Rightarrow> smooth_all (prhs ! 0) dim0 TolArg))))"

definition scalar :: "double \<Rightarrow> mxArray" where
  "scalar v = \<lparr>sz0 = 1, sz1 = 1, pr = [v]\<rparr>"

definition row_vector :: "double list \<Rightarrow> mxArray" where
  "row_vector xs = \<lparr>sz0 = 1, sz1 = length xs, pr = xs\<rparr>"

text \<open>
  The states in which the iteration body is entered, starting from \<open>st0\<close>: each step is one
  pass of the body that ends in the update of \<open>M[k]\<close>.
\<close>

inductive newton_reach :: "double list \<Rightarrow> double \<Rightarrow> newton_state \<Rightarrow> newton_state \<Rightarrow> bool"
  for xvec Tol st0 where
  start: "newton_reach xvec Tol st0 st0"
| iterate: "newton_reach xvec Tol st0 st \<Longrightarrow> Iter st \<le> MaxIter \<Longrightarrow>
     newton_step xvec Tol st = Continue st' \<Longrightarrow>
     newton_reach xvec Tol st0 (st'\<lparr>warned := (warned st' \<or> Iter st' = MaxIter), Iter := Iter st' + 1\<rparr>)"

definition start_state :: "double list \<Rightarrow> double \<Rightarrow> newton_state" where
  \<comment> \<open>the state in which the iterations of a sorted vector start\<close>
  "start_state xvec M0 =
     \<lparr>a_bnd = xvec ! 0, b_bnd = xvec ! (length xvec - 1),
      range_ab = dsub (xvec ! (length xvec - 1)) (xvec ! 0), M_k = M0, Iter = 0, warned = False\<rparr>"

definition start_Tol :: "double option \<Rightarrow> double list \<Rightarrow> double" where
  "start_Tol TolArg xvec =
     (case TolArg of
        None \<Rightarrow> dmul (dsub (xvec ! (length xvec - 1)) (xvec ! 0)) (Fin one_e_minus_4)
      | Some v \<Rightarrow> v)"

section \<open>Properties of rounding\<close>

lemma blen_bounds: "0 < n \<Longrightarrow> (2::nat) ^ (blen n - 1) \<le> n \<and> n < (2::nat) ^ blen n"
proof (induction n rule: blen.induct)
  case (1 n)
  show ?case
  proof (cases "n div 2 = 0")
    case True
    with "1.prems" have "n = 1" by (simp add: div_eq_0_iff) 
    then show ?thesis by (simp add: blen.simps)
  next
    case False
    then have ih: "(2::nat) ^ (blen (n div 2) - 1) \<le> n div 2" "n div 2 < (2::nat) ^ blen (n div 2)"
      using "1.IH" "1.prems" by simp_all
    have b: "blen n = Suc (blen (n div 2))" using "1.prems" by (subst blen.simps) simp
    have pos: "0 < blen (n div 2)" using False by (subst blen.simps) simp
    then have "(2::nat) ^ (blen n - 1) = 2 * 2 ^ (blen (n div 2) - 1)"
      by (cases "blen (n div 2)") (simp_all add: b)
    moreover have "2 * (n div 2) \<le> n" by simp
    ultimately have l: "(2::nat) ^ (blen n - 1) \<le> n" using ih(1) by linarith
    have "n < 2 * (n div 2) + 2" by presburger
    moreover have "2 * (n div 2) + 2 \<le> 2 * (2::nat) ^ blen (n div 2)" using ih(2) by simp
    ultimately have "n < (2::nat) ^ blen n" by (simp add: b)
    with l show ?thesis by simp
  qed
qed

lemma blen_pos: "0 < n \<Longrightarrow> 0 < blen n"
  by (subst blen.simps) simp

lemma ilog2_bounds:
  assumes "0 < x"
  shows "2 powi ilog2 x \<le> x" and "x < 2 powi (ilog2 x + 1)"
proof -
  have "2 powi ilog2 x \<le> x \<and> x < 2 powi (ilog2 x + 1)"
  proof (cases "1 \<le> x")
    case True
    let ?n = "nat \<lfloor>x\<rfloor>"
    have n: "0 < ?n" using True by simp
    have e: "ilog2 x = int (blen ?n - 1)"
      using True blen_pos[OF n] by (simp add: ilog2_def)
    have "(2::real) ^ (blen ?n - 1) \<le> real ?n"
      using blen_bounds[OF n] by (metis of_nat_le_iff of_nat_numeral of_nat_power)
    also have "real ?n \<le> x" using True by simp
    finally have l: "2 powi ilog2 x \<le> x" by (simp add: e)
    have "?n + 1 \<le> (2::nat) ^ blen ?n"
      using blen_bounds[OF n] unfolding Suc_eq_plus1[symmetric] by (intro Suc_leI) blast
    then have "real (?n + 1) \<le> 2 ^ blen ?n"
      by (metis of_nat_le_iff of_nat_numeral of_nat_power)
    moreover have "x < real (?n + 1)" using True by (simp add: nat_add_distrib) linarith
    ultimately have "x < 2 ^ blen ?n" by linarith
    moreover have "ilog2 x + 1 = int (blen ?n)" using e blen_pos[OF n] by simp
    ultimately have "x < 2 powi (ilog2 x + 1)" by simp
    with l show ?thesis by simp
  next
    case False
    then have x1: "x < 1" by simp
    let ?N = "\<lceil>1 / x\<rceil>"
    let ?n = "nat (?N - 1)"
    have y: "1 < 1 / x" using assms x1 by simp
    then have N2: "2 \<le> ?N" by (simp add: le_ceiling_iff) 
    then have n: "0 < ?n" by simp
    let ?c = "blen ?n"
    have e: "ilog2 x = - int ?c" using False by (simp add: ilog2_def)
    have c: "0 < ?c" by (rule blen_pos[OF n])
    have b1: "(2::real) ^ (?c - 1) \<le> real ?n"
      using blen_bounds[OF n] by (metis of_nat_le_iff of_nat_numeral of_nat_power)
    have "?n + 1 \<le> (2::nat) ^ ?c"
      using blen_bounds[OF n] unfolding Suc_eq_plus1[symmetric] by (intro Suc_leI) blast
    then have b2: "real (?n + 1) \<le> 2 ^ ?c"
      by (metis of_nat_le_iff of_nat_numeral of_nat_power)
    have "0 \<le> ?N - 1" using N2 by linarith
    then have "real ?n = real_of_int (?N - 1)" by (rule of_nat_nat)
    then have rn: "real ?n = of_int ?N - 1" by simp
    from b2 have "real ?n + 1 \<le> 2 ^ ?c" by (simp only: of_nat_add of_nat_1)
    with rn have N: "real_of_int ?N \<le> 2 ^ ?c" by linarith
    have "1 / x \<le> of_int ?N" by (rule le_of_int_ceiling)
    from this N have "1 / x \<le> 2 ^ ?c" by (rule order_trans)
    then have "1 \<le> 2 ^ ?c * x" using assms by (simp add: field_simps)
    then have l: "2 powi ilog2 x \<le> x"
      by (simp add: e power_int_minus field_simps)
    have "of_int ?N - 1 < 1 / x" by linarith
    with rn have "real ?n < 1 / x" by simp
    with b1 have "2 ^ (?c - 1) < 1 / x" by (rule le_less_trans)
    then have "2 ^ (?c - 1) * x < 1" using assms by (simp add: field_simps)
    moreover have "ilog2 x + 1 = - int (?c - 1)" using e c by simp
    ultimately have "x < 2 powi (ilog2 x + 1)"
      by (simp add: power_int_minus field_simps)
    with l show ?thesis by simp
  qed
  then show "2 powi ilog2 x \<le> x" and "x < 2 powi (ilog2 x + 1)" by simp_all
qed

lemma ilog2_less: "0 < x \<Longrightarrow> x < 2 powi a \<Longrightarrow> ilog2 x < a"
proof (rule ccontr)
  assume x: "0 < x" "x < 2 powi a" and "\<not> ilog2 x < a"
  then have "a \<le> ilog2 x" by simp
  then have "(2::real) powi a \<le> 2 powi ilog2 x" by (intro power_int_increasing) simp_all
  with ilog2_bounds(1)[OF x(1)] x(2) show False by simp
qed

lemma ilog2_ge: "0 < x \<Longrightarrow> 2 powi a \<le> x \<Longrightarrow> a \<le> ilog2 x"
proof (rule ccontr)
  assume x: "0 < x" "2 powi a \<le> x" and "\<not> a \<le> ilog2 x"
  then have "ilog2 x + 1 \<le> a" by simp
  then have "(2::real) powi (ilog2 x + 1) \<le> 2 powi a" by (intro power_int_increasing) simp_all
  with ilog2_bounds(2)[OF x(1)] x(2) show False by simp
qed

lemma ilog2_eq: "2 powi a \<le> x \<Longrightarrow> x < 2 powi (a + 1) \<Longrightarrow> ilog2 x = a"
proof -
  assume a: "2 powi a \<le> x" "x < 2 powi (a + 1)"
  have "(0::real) < 2 powi a" by simp
  with a have x: "0 < x" by linarith
  from ilog2_less[OF x a(2)] ilog2_ge[OF x a(1)] show ?thesis by simp
qed

lemma ilog2_mono: "0 < x \<Longrightarrow> x \<le> y \<Longrightarrow> ilog2 x \<le> ilog2 y"
proof -
  assume x: "0 < x" "x \<le> y"
  then have y: "0 < y" by simp
  from ilog2_bounds(1)[OF x(1)] x(2) have "2 powi ilog2 x \<le> y" by simp
  from ilog2_ge[OF y this] show ?thesis .
qed

lemma rhe_of_int [simp]: "rhe (of_int n) = n"
  by (simp add: rhe_def)

lemma rhe_le: "x \<le> of_int n \<Longrightarrow> rhe x \<le> n"
proof -
  assume x: "x \<le> of_int n"
  then have f: "\<lfloor>x\<rfloor> \<le> n" by (simp add: floor_le_iff)
  show ?thesis
  proof (cases "\<lfloor>x\<rfloor> = n")
    case True
    then have "of_int n \<le> x" by (metis of_int_floor_le)
    with x have "x = of_int n" by simp
    then show ?thesis by simp
  next
    case False
    with f have "\<lfloor>x\<rfloor> + 1 \<le> n" by simp
    moreover have "rhe x \<le> \<lfloor>x\<rfloor> + 1" by (simp add: rhe_def Let_def)
    ultimately show ?thesis by simp
  qed
qed

lemma rhe_ge: "of_int n \<le> x \<Longrightarrow> n \<le> rhe x"
proof -
  assume "of_int n \<le> x"
  then have "n \<le> \<lfloor>x\<rfloor>" by (simp add: le_floor_iff)
  moreover have "\<lfloor>x\<rfloor> \<le> rhe x" by (simp add: rhe_def Let_def)
  ultimately show ?thesis by simp
qed

lemma rhe_below_half: "x < of_int n - 1 / 2 \<Longrightarrow> rhe x \<le> n - 1"
proof -
  assume x: "x < of_int n - 1 / 2"
  then have "x < of_int n" by simp
  then have f: "\<lfloor>x\<rfloor> \<le> n - 1" by (simp add: floor_less_iff)
  show ?thesis
  proof (cases "\<lfloor>x\<rfloor> = n - 1")
    case True
    then have "x - of_int \<lfloor>x\<rfloor> < 1 / 2" using x by simp
    then have "rhe x = \<lfloor>x\<rfloor>" by (simp add: rhe_def Let_def)
    with True show ?thesis by simp
  next
    case False
    with f have "\<lfloor>x\<rfloor> + 1 \<le> n - 1" by simp
    moreover have "rhe x \<le> \<lfloor>x\<rfloor> + 1" by (simp add: rhe_def Let_def)
    ultimately show ?thesis by simp
  qed
qed

lemma rhe_near: "of_int (rhe x) - 1 / 2 \<le> x \<and> x \<le> of_int (rhe x) + 1 / 2"
proof -
  define d where "d = x - of_int \<lfloor>x\<rfloor>"
  have r: "rhe x = (if d < 1 / 2 then \<lfloor>x\<rfloor> else if 1 / 2 < d then \<lfloor>x\<rfloor> + 1
                    else if even \<lfloor>x\<rfloor> then \<lfloor>x\<rfloor> else \<lfloor>x\<rfloor> + 1)"
    by (simp only: rhe_def Let_def d_def)
  have d: "0 \<le> d" "d < 1" unfolding d_def by linarith+
  have x: "x = of_int \<lfloor>x\<rfloor> + d" by (simp add: d_def)
  show ?thesis
  proof (cases "d < 1 / 2")
    case True
    then have "rhe x = \<lfloor>x\<rfloor>" by (simp only: r if_True)
    with x d True show ?thesis by linarith
  next
    case False
    show ?thesis
    proof (cases "1 / 2 < d")
      case True
      with False have "rhe x = \<lfloor>x\<rfloor> + 1" by (simp only: r if_True if_False)
      then have "real_of_int (rhe x) = of_int \<lfloor>x\<rfloor> + 1" by simp
      with x d True show ?thesis by linarith
    next
      case F2: False
      with False have dh: "d = 1 / 2" by simp
      have "rhe x = \<lfloor>x\<rfloor> \<or> rhe x = \<lfloor>x\<rfloor> + 1"
        by (simp only: r) (simp add: dh)
      then have "real_of_int (rhe x) = of_int \<lfloor>x\<rfloor> \<or> real_of_int (rhe x) = of_int \<lfloor>x\<rfloor> + 1"
        by auto
      with x dh show ?thesis by linarith
    qed
  qed
qed

lemma rhe_minus: "rhe (- x) = - rhe x"
proof (cases "x = of_int \<lfloor>x\<rfloor>")
  case True
  then obtain n where "x = of_int n" by blast
  then have "- x = of_int (- n)" by simp
  then have "rhe (- x) = - n" by (simp only: rhe_of_int)
  with \<open>x = of_int n\<close> show ?thesis by simp
next
  case False
  then have "\<lceil>x\<rceil> = \<lfloor>x\<rfloor> + 1" by (simp add: ceiling_altdef)
  then have fl: "\<lfloor>- x\<rfloor> = - \<lfloor>x\<rfloor> - 1" by (simp add: floor_minus)
  have l: "of_int \<lfloor>x\<rfloor> < x" "x < of_int \<lfloor>x\<rfloor> + 1" using False by linarith+
  show ?thesis
    using l by (auto simp: rhe_def Let_def fl)
qed

text \<open>Rounding to a grid of multiples of a power of two.\<close>

lemma two_powi_pos [simp]: "(0::real) < 2 powi e"
  by simp

lemma powi_split: "e \<le> c \<Longrightarrow> (2::real) powi c = 2 ^ nat (c - e) * 2 powi e"
proof -
  assume "e \<le> c"
  then have c: "c = int (nat (c - e)) + e" by simp
  have "(2::real) powi (int (nat (c - e)) + e) = 2 powi int (nat (c - e)) * 2 powi e"
    by (rule power_int_add) simp
  then have "(2::real) powi (int (nat (c - e)) + e) = 2 ^ nat (c - e) * 2 powi e"
    by (simp only: power_int_of_nat)
  with c show ?thesis by simp
qed

lemma grid_div:
  assumes "e \<le> c"
  shows "of_int k * 2 powi c / 2 powi e = (of_int (k * 2 ^ nat (c - e)) :: real)"
  by (simp add: powi_split[OF assms])

lemma round_bin_grid:
  assumes "ulp_exp p emin x \<le> c"
    and "x = of_int k * 2 powi c"
  shows "round_bin p emin x = x"
proof (cases "x = 0")
  case True
  then show ?thesis by (simp add: round_bin_def)
next
  case False
  let ?e = "ulp_exp p emin x"
  have "x / 2 powi ?e = of_int (k * 2 ^ nat (c - ?e))"
    unfolding assms(2) using grid_div[OF assms(1), of k] assms(2) by simp
  then have "of_int (rhe (x / 2 powi ?e)) * 2 powi ?e = x / 2 powi ?e * 2 powi ?e"
    by (simp only: rhe_of_int)
  then show ?thesis using False by (simp add: round_bin_def)
qed

lemma round_bin_le:
  assumes "ulp_exp p emin x \<le> c" and "x \<le> of_int k * 2 powi c" and "x \<noteq> 0"
  shows "round_bin p emin x \<le> of_int k * 2 powi c"
proof -
  let ?e = "ulp_exp p emin x"
  have "x / 2 powi ?e \<le> of_int k * 2 powi c / 2 powi ?e"
    using assms(2) by (simp add: divide_right_mono)
  then have "x / 2 powi ?e \<le> of_int (k * 2 ^ nat (c - ?e))"
    by (simp only: grid_div[OF assms(1)])
  then have "rhe (x / 2 powi ?e) \<le> k * 2 ^ nat (c - ?e)" by (rule rhe_le)
  then have "real_of_int (rhe (x / 2 powi ?e)) \<le> of_int (k * 2 ^ nat (c - ?e))"
    by (simp only: of_int_le_iff)
  then have A: "real_of_int (rhe (x / 2 powi ?e)) * 2 powi ?e \<le> real_of_int (k * 2 ^ nat (c - ?e)) * 2 powi ?e"
    by (intro mult_right_mono) simp_all
  have B: "real_of_int (k * 2 ^ nat (c - ?e)) * 2 powi ?e = of_int k * 2 powi c"
    by (simp add: powi_split[OF assms(1)])
  have "round_bin p emin x = real_of_int (rhe (x / 2 powi ?e)) * 2 powi ?e"
    using assms(3) by (simp add: round_bin_def)
  with A[unfolded B] show ?thesis by simp
qed

lemma round_bin_ge:
  assumes "ulp_exp p emin x \<le> c" and "of_int k * 2 powi c \<le> x" and "x \<noteq> 0"
  shows "of_int k * 2 powi c \<le> round_bin p emin x"
proof -
  let ?e = "ulp_exp p emin x"
  have "of_int k * 2 powi c / 2 powi ?e \<le> x / 2 powi ?e"
    using assms(2) by (simp add: divide_right_mono)
  then have "of_int (k * 2 ^ nat (c - ?e)) \<le> x / 2 powi ?e"
    by (simp only: grid_div[OF assms(1)])
  then have "k * 2 ^ nat (c - ?e) \<le> rhe (x / 2 powi ?e)" by (rule rhe_ge)
  then have "real_of_int (k * 2 ^ nat (c - ?e)) \<le> of_int (rhe (x / 2 powi ?e))"
    by (simp only: of_int_le_iff)
  then have A: "real_of_int (k * 2 ^ nat (c - ?e)) * 2 powi ?e \<le> real_of_int (rhe (x / 2 powi ?e)) * 2 powi ?e"
    by (intro mult_right_mono) simp_all
  have B: "real_of_int (k * 2 ^ nat (c - ?e)) * 2 powi ?e = of_int k * 2 powi c"
    by (simp add: powi_split[OF assms(1)])
  have "round_bin p emin x = real_of_int (rhe (x / 2 powi ?e)) * 2 powi ?e"
    using assms(3) by (simp add: round_bin_def)
  with A[unfolded B] show ?thesis by simp
qed

lemma round_bin_minus: "round_bin p emin (- x) = - round_bin p emin x"
  by (simp add: round_bin_def ulp_exp_def rhe_minus)

lemma round_bin_nonneg: "0 \<le> x \<Longrightarrow> 0 \<le> round_bin p emin x"
proof (cases "x = 0")
  case True
  then show ?thesis by (simp add: round_bin_def)
next
  case False
  assume "0 \<le> x"
  then have "of_int 0 \<le> x / 2 powi ulp_exp p emin x" by simp
  then have "0 \<le> rhe (x / 2 powi ulp_exp p emin x)" by (rule rhe_ge)
  then show ?thesis using False by (simp add: round_bin_def)
qed

lemma ulp_exp_le:
  assumes "0 < v" and "v < 2 powi (c + int p)" and "emin \<le> c"
  shows "ulp_exp p emin v \<le> c"
proof -
  from ilog2_less[OF assms(1,2)] have "ilog2 v - (int p - 1) \<le> c" by simp
  with assms(1,3) show ?thesis by (simp add: ulp_exp_def)
qed

lemma fl32_draw_bound:
  assumes X: "1 \<le> X" "X \<le> 2147483647"
    and u: "0 \<le> u" "u \<le> 1 - 1 / 2 ^ 24"
  shows "0 \<le> fl32 (u * fl32 (of_int X)) \<and> fl32 (u * fl32 (of_int X)) < of_int X"
proof -
  define x where "x = real_of_int X"
  have x1: "1 \<le> x" "x < 2147483648" using X by (simp_all add: x_def)
  then have xpos: "0 < x" by simp
  define e where "e = ilog2 x"
  have eb: "2 powi e \<le> x" "x < 2 powi (e + 1)"
    using ilog2_bounds[OF xpos] by (simp_all add: e_def)
  have e0: "0 \<le> e" unfolding e_def using x1 by (intro ilog2_ge[OF xpos]) simp
  have e30: "e < 31" unfolding e_def using x1 by (intro ilog2_less[OF xpos]) simp
  define E where "E = e - 23"
  define q where "q = (2::real) powi E"
  have qpos: "0 < q" by (simp add: q_def)
  have Ex: "ulp_exp 24 (- 149) x = E"
    using e0 xpos by (simp add: ulp_exp_def e_def E_def)
  have pe: "2 powi e = 8388608 * q"
  proof -
    have "(2::real) powi (23 + E) = 2 powi 23 * 2 powi E" by (rule power_int_add) simp
    moreover have "23 + E = e" by (simp add: E_def)
    ultimately show ?thesis by (simp add: q_def)
  qed
  have pe1: "2 powi (e + 1) = 16777216 * q"
  proof -
    have "(2::real) powi (24 + E) = 2 powi 24 * 2 powi E" by (rule power_int_add) simp
    moreover have "24 + E = e + 1" by (simp add: E_def)
    ultimately show ?thesis by (simp add: q_def)
  qed
  have pE24: "2 powi (E + 24) = 16777216 * q"
  proof -
    have eq: "E + 24 = e + 1" by (simp add: E_def)
    show ?thesis unfolding eq by (rule pe1)
  qed
  have pEm: "2 powi (E - 1) = q / 2"
  proof -
    have "(2::real) powi (E + (- 1)) = 2 powi E * 2 powi (- 1)" by (rule power_int_add) simp
    then show ?thesis by (simp add: q_def power_int_minus)
  qed
  define n where "n = rhe (x / q)"
  note eb' = eb[unfolded pe pe1]
  have xq: "8388608 \<le> x / q" "x / q < 16777216"
    using eb' qpos by (simp_all add: field_simps)
  have n23: "8388608 \<le> n"
  proof -
    have "real_of_int (8388608) \<le> x / q" using xq(1) by simp
    then show ?thesis unfolding n_def by (rule rhe_ge)
  qed
  have n24: "n \<le> 16777216"
  proof -
    have "x / q \<le> real_of_int (16777216)" using xq(2) by simp
    then show ?thesis unfolding n_def by (rule rhe_le)
  qed
  have near: "(of_int n - 1 / 2) * q \<le> x"
  proof -
    have "of_int n - 1 / 2 \<le> x / q" using rhe_near[of "x / q"] by (simp add: n_def)
    then show ?thesis using qpos by (simp add: field_simps)
  qed
  define Y where "Y = fl32 x"
  have Y: "Y = of_int n * q"
    using xpos by (simp add: Y_def fl32_def round_bin_def Ex n_def q_def)
  have Yh: "(of_int n - 1 / 2) * q = Y - q / 2" and Y1: "(of_int n - 1) * q = Y - q"
    by (simp_all add: Y algebra_simps)
  note near' = near[unfolded Yh]
  have Ypos: "0 < Y" using n23 qpos by (simp add: Y)
  define v where "v = u * Y"
  have v0: "0 \<le> v" using u(1) Ypos by (simp add: v_def)
  have "u \<le> 16777215 / 16777216" using u(2) by simp
  then have vle: "v \<le> 16777215 / 16777216 * Y"
    unfolding v_def using Ypos by (intro mult_right_mono) simp_all
  have nonneg: "0 \<le> fl32 v" unfolding fl32_def using v0 by (rule round_bin_nonneg)
  have "fl32 v < x"
  proof (cases "v = 0")
    case True
    then show ?thesis using xpos by (simp add: fl32_def round_bin_def)
  next
    case False
    with v0 have vpos: "0 < v" by simp
    have "real_of_int n \<le> 16777216" using n24 by simp
    then have "real_of_int n * q \<le> 16777216 * q"
      using qpos by (intro mult_right_mono) simp_all
    then have nq: "Y \<le> 16777216 * q" by (simp only: Y)
    have vY: "v < Y" using vle Ypos by linarith
    have vlt: "v < 16777216 * q" using vY nq by linarith
    have "v < 2 powi (E + int 24)" using vlt pE24 by simp
    moreover have "- 149 \<le> E" using e0 by (simp add: E_def)
    ultimately have EvE: "ulp_exp 24 (- 149) v \<le> E"
      using vpos by (intro ulp_exp_le)
    consider "n = 16777216" | "n = 8388608" | "8388608 < n" "n < 16777216"
      using n23 n24 by linarith
    then show ?thesis
    proof cases
      case 1
      have "Y = 16777216 * q" by (simp add: Y 1)
      with vle have "v \<le> 16777215 * q" by linarith
      then have "v \<le> of_int 16777215 * 2 powi E"
        by (simp add: q_def)
      from round_bin_le[OF EvE this False]
      have "fl32 v \<le> 16777215 * q" by (simp add: fl32_def q_def)
      moreover have "16777215 * q < x" using near' qpos \<open>Y = 16777216 * q\<close> by linarith
      ultimately show ?thesis by linarith
    next
      case 2
      have Y2: "Y = 8388608 * q" by (simp add: Y 2)
      with vle have "v \<le> 16777215 * (q / 2)" by linarith
      then have vb: "v \<le> of_int 16777215 * 2 powi (E - 1)"
        by (simp add: pEm)
      have "v < 2 powi (E - 1 + int 24)"
      proof -
        have eq: "E - 1 + int 24 = e" by (simp add: E_def)
        from vY Y2 have "v < 8388608 * q" by linarith
        then show ?thesis unfolding eq pe .
      qed
      moreover have "- 149 \<le> E - 1" using e0 by (simp add: E_def)
      ultimately have "ulp_exp 24 (- 149) v \<le> E - 1"
        using vpos by (intro ulp_exp_le)
      from round_bin_le[OF this vb False]
      have "fl32 v \<le> 16777215 * (q / 2)" by (simp add: fl32_def pEm)
      moreover have "16777215 * (q / 2) < 8388608 * q" using qpos by simp
      ultimately show ?thesis using eb'(1) by linarith
    next
      case 3
      have "(8388608::real) < real_of_int n"
        using 3(1) by simp
      then have "8388608 * q < real_of_int n * q"
        using qpos by (intro mult_strict_right_mono) simp_all
      then have n': "8388608 * q < Y" by (simp only: Y)
      have vh: "v < Y - q / 2" using vle n' by linarith
      then have vhalf: "v < (of_int n - 1 / 2) * q" by (simp only: Yh)
      have "fl32 v \<le> Y - q"
      proof (cases "ulp_exp 24 (- 149) v = E")
        case True
        have "v / q < of_int n - 1 / 2" using vhalf qpos by (simp add: field_simps)
        then have "rhe (v / q) \<le> n - 1" by (rule rhe_below_half)
        then have "real_of_int (rhe (v / q)) \<le> of_int n - 1" by linarith
        then have "real_of_int (rhe (v / q)) * q \<le> (of_int n - 1) * q"
          using qpos by (intro mult_right_mono) simp_all
        then have "real_of_int (rhe (v / q)) * q \<le> Y - q" by (simp only: Y1)
        then show ?thesis using False by (simp add: fl32_def round_bin_def True q_def)
      next
        case F: False
        with EvE have Ev: "ulp_exp 24 (- 149) v \<le> E - 1" by simp
        then have "ilog2 v - 23 \<le> E - 1" using vpos by (simp add: ulp_exp_def)
        then have "ilog2 v + 1 \<le> e" by (simp add: E_def)
        then have "(2::real) powi (ilog2 v + 1) \<le> 2 powi e"
          by (intro power_int_increasing) simp_all
        with ilog2_bounds(2)[OF vpos] have "v \<le> of_int (8388608) * 2 powi E"
          by (simp add: pe q_def)
        from round_bin_le[OF EvE this False]
        have "fl32 v \<le> 8388608 * q" by (simp add: fl32_def q_def)
        moreover have "8388608 * q \<le> Y - q"
        proof -
          have "(8388608::real) \<le> of_int n - 1" using 3(1) by linarith
          then have "8388608 * q \<le> (of_int n - 1) * q"
            using qpos by (intro mult_right_mono) simp_all
          then show ?thesis by (simp only: Y1)
        qed
        ultimately show ?thesis by linarith
      qed
      then show ?thesis using near' qpos by linarith
    qed
  qed
  with nonneg show ?thesis by (simp add: v_def Y_def x_def)
qed

section \<open>Properties of the sampler\<close>

lemma wrap32_id: "INT_MIN \<le> x \<Longrightarrow> x \<le> INT_MAX \<Longrightarrow> wrap32 x = x"
  by (simp add: wrap32_def INT_MIN_def INT_MAX_def sint_sbintrunc' signed_take_bit_int_eq_self)

lemma short_of_int_id: "0 \<le> n \<Longrightarrow> n \<le> 32767 \<Longrightarrow> short_of_int n = n"
  by (simp add: short_of_int_def sint_sbintrunc' signed_take_bit_int_eq_self)

lemma int_of_float_range:
  assumes "0 \<le> y" "y < real_of_int X" "X \<le> INT_MAX"
  shows "0 \<le> int_of_float y \<and> int_of_float y < X"
proof -
  have "y < real_of_int INT_MAX + 1" using assms(2,3) by linarith
  moreover have "real_of_int INT_MIN - 1 < y" using assms(1) by (simp add: INT_MIN_def)
  ultimately have "int_of_float y = \<lfloor>y\<rfloor>" using assms(1) by (simp add: int_of_float_def trunc_def)
  moreover have "0 \<le> \<lfloor>y\<rfloor>" using assms(1) by simp
  moreover have "\<lfloor>y\<rfloor> < X" using assms(2) by (simp add: floor_less_iff)
  ultimately show ?thesis by simp
qed

lemma float_below_one:
  assumes f: "is_float32 u" and u: "0 \<le> u" "u < 1"
  shows "u \<le> 1 - 1 / 2 ^ 24"
proof (cases "u < 1 / 2")
  case True
  then show ?thesis by simp
next
  case False
  then have u0: "0 < u" by simp
  have "(2::real) powi (- 1) \<le> u" using False by (simp add: power_int_minus)
  moreover have "u < 2 powi (- 1 + 1)" using u by simp
  ultimately have il: "ilog2 u = - 1" by (rule ilog2_eq)
  have e: "ulp_exp 24 (- 149) u = - 24" using il u0 by (simp add: ulp_exp_def)
  define n where "n = rhe (u / 2 powi (- 24))"
  have q: "(2::real) powi (- 24) = 1 / 16777216" by (simp add: power_int_minus inverse_eq_divide)
  have "u = of_int n * 2 powi (- 24)"
    using f u0 e by (simp add: is_float32_def fl32_def round_bin_def n_def)
  then have un: "u = of_int n / 16777216" unfolding q by simp
  with u(2) have "real_of_int n < 16777216" by simp
  then have "n \<le> 16777215" by simp
  then have "real_of_int n \<le> 16777215" by simp
  with un have "u \<le> 16777215 / 16777216" by simp
  then show ?thesis by simp
qed

lemma draw_range:
  assumes X: "0 < X" "X \<le> INT_MAX"
    and u: "is_float32 u" "0 \<le> u" "u < 1"
  shows "0 \<le> int_of_float (fl32 (u * fl32 (real_of_int X))) \<and>
         int_of_float (fl32 (u * fl32 (real_of_int X))) < X"
proof -
  have "1 \<le> X" "X \<le> 2147483647" using X by (simp_all add: INT_MAX_def)
  from fl32_draw_bound[OF this u(2) float_below_one[OF u]]
  show ?thesis using int_of_float_range[OF _ _ X(2)] by blast
qed

lemma sum_list_take_Suc:
  "j < length xs \<Longrightarrow> sum_list (take (Suc j) xs) = sum_list (take j xs) + (xs ! j :: int)"
  by (simp add: take_Suc_conv_app_nth)

lemma sum_take_bounds:
  fixes xs :: "int list"
  assumes "\<forall>j<length xs. 0 \<le> xs ! j"
  shows "0 \<le> sum_list (take j xs)" "sum_list (take j xs) \<le> sum_list xs"
proof -
  have a: "\<And>x. x \<in> set xs \<Longrightarrow> 0 \<le> x" using assms by (auto simp: in_set_conv_nth)
  show "0 \<le> sum_list (take j xs)"
    by (rule sum_list_nonneg) (auto dest: in_set_takeD a)
  have "0 \<le> sum_list (drop j xs)"
    by (rule sum_list_nonneg) (auto dest: in_set_dropD a)
  moreover have "sum_list xs = sum_list (take j xs) + sum_list (drop j xs)"
    by (metis append_take_drop_id sum_list_append)
  ultimately show "sum_list (take j xs) \<le> sum_list xs" by simp
qed

lemma nth_le_sum:
  fixes xs :: "int list"
  assumes "\<forall>j<length xs. 0 \<le> xs ! j" "j < length xs"
  shows "xs ! j \<le> sum_list xs"
proof -
  have "sum_list (take (Suc j) xs) = sum_list (take j xs) + xs ! j"
    using assms(2) by (rule sum_list_take_Suc)
  with sum_take_bounds[OF assms(1), of j] sum_take_bounds(2)[OF assms(1), of "Suc j"]
  show ?thesis by simp
qed

text \<open>
  The walk in a state whose partial sums of counters and whose counters are in the range of
  \<open>int\<close>: for \<open>k\<close> below the total it breaks at the first index whose partial sum exceeds \<open>k\<close>.
\<close>

lemma walk_finds_gen:
  assumes "length (c_cnt st) = n" "j < n"
    and "d = sum_list (take (Suc j) (c_cnt st))"
    and "sum_list (take j (c_cnt st)) \<le> k" "k < sum_list (c_cnt st)"
    and pr: "\<forall>j\<le>length (c_cnt st). INT_MIN \<le> sum_list (take j (c_cnt st)) \<and>
                 sum_list (take j (c_cnt st)) \<le> INT_MAX"
    and el: "\<forall>j<length (c_cnt st). INT_MIN < c_cnt st ! j \<and> c_cnt st ! j \<le> INT_MAX"
    and rng: "INT_MIN < N_tot st" "N_tot st \<le> INT_MAX"
  shows "\<exists>j'. j \<le> j' \<and> j' < n \<and> sum_list (take j' (c_cnt st)) \<le> k
            \<and> k < sum_list (take (Suc j') (c_cnt st))
            \<and> walk n k i b j d st =
                Inr (st\<lparr>bootsam := (bootsam st)[i + b * n := int j' + 1],
                        c_cnt := (c_cnt st)[j' := c_cnt st ! j' - 1],
                        N_tot := N_tot st - 1\<rparr>)"
  using assms
proof (induction n k i b j d st rule: walk.induct)
  case (1 n k i b j d st)
  note pr = "1.prems"(6) and el = "1.prems"(7)
  have wN: "wrap32 (N_tot st - 1) = N_tot st - 1"
    using "1.prems"(8,9) by (intro wrap32_id) simp_all
  show ?case
  proof (cases "k < d")
    case True
    have "INT_MIN < c_cnt st ! j" "c_cnt st ! j \<le> INT_MAX"
      using el "1.prems"(1,2) by simp_all
    then have "wrap32 (c_cnt st ! j - 1) = c_cnt st ! j - 1"
      by (intro wrap32_id) simp_all
    with True wN "1.prems"(1-5) show ?thesis
      by (intro exI[of _ j]) (simp add: walk.simps)
  next
    case False
    have lt: "j + 1 < length (c_cnt st)"
    proof (rule ccontr)
      assume "\<not> j + 1 < length (c_cnt st)"
      with "1.prems"(1,2) have "Suc j = length (c_cnt st)" by simp
      with "1.prems"(3) have "d = sum_list (c_cnt st)" by simp
      with False "1.prems"(5) show False by simp
    qed
    have d': "d + c_cnt st ! (j + 1) = sum_list (take (Suc (j + 1)) (c_cnt st))"
      using lt "1.prems"(3) by (simp add: sum_list_take_Suc)
    have "Suc (j + 1) \<le> length (c_cnt st)" using lt by simp
    with pr have "INT_MIN \<le> sum_list (take (Suc (j + 1)) (c_cnt st))"
      "sum_list (take (Suc (j + 1)) (c_cnt st)) \<le> INT_MAX"
      by blast+
    then have "wrap32 (d + c_cnt st ! (j + 1)) = d + c_cnt st ! (j + 1)"
      unfolding d' by (rule wrap32_id)
    with d' have d'': "wrap32 (d + c_cnt st ! (j + 1)) = sum_list (take (Suc (j + 1)) (c_cnt st))"
      by simp
    have le': "sum_list (take (j + 1) (c_cnt st)) \<le> k"
      using False "1.prems"(3) by simp
    from "1.IH"[OF "1.prems"(2) False lt "1.prems"(1) _ d'' le' "1.prems"(5-9)] lt "1.prems"(1)
    obtain j' where "j + 1 \<le> j'" "j' < n" "sum_list (take j' (c_cnt st)) \<le> k"
      "k < sum_list (take (Suc j') (c_cnt st))"
      "walk n k i b (j + 1) (wrap32 (d + c_cnt st ! (j + 1))) st =
         Inr (st\<lparr>bootsam := (bootsam st)[i + b * n := int j' + 1],
                 c_cnt := (c_cnt st)[j' := c_cnt st ! j' - 1],
                 N_tot := N_tot st - 1\<rparr>)"
      by auto
    then show ?thesis
      using False lt "1.prems"(2)
      by (intro exI[of _ j']) (simp add: walk.simps[of n k i b j])
  qed
qed

lemma walk_finds:
  assumes "length (c_cnt st) = n" "j < n"
    and "d = sum_list (take (Suc j) (c_cnt st))"
    and "sum_list (take j (c_cnt st)) \<le> k" "k < sum_list (c_cnt st)"
    and nonneg: "\<forall>j<length (c_cnt st). 0 \<le> c_cnt st ! j"
    and rng: "sum_list (c_cnt st) \<le> INT_MAX" "INT_MIN < N_tot st" "N_tot st \<le> INT_MAX"
  shows "\<exists>j'. j \<le> j' \<and> j' < n \<and> sum_list (take j' (c_cnt st)) \<le> k
            \<and> k < sum_list (take (Suc j') (c_cnt st))
            \<and> walk n k i b j d st =
                Inr (st\<lparr>bootsam := (bootsam st)[i + b * n := int j' + 1],
                        c_cnt := (c_cnt st)[j' := c_cnt st ! j' - 1],
                        N_tot := N_tot st - 1\<rparr>)"
proof (rule walk_finds_gen[OF assms(1-5) _ _ rng(2,3)])
  show "\<forall>j\<le>length (c_cnt st). INT_MIN \<le> sum_list (take j (c_cnt st)) \<and>
                 sum_list (take j (c_cnt st)) \<le> INT_MAX"
  proof (intro allI impI conjI)
    fix j
    show "INT_MIN \<le> sum_list (take j (c_cnt st))"
      using sum_take_bounds(1)[OF nonneg, of j] by (simp add: INT_MIN_def)
    show "sum_list (take j (c_cnt st)) \<le> INT_MAX"
      using sum_take_bounds(2)[OF nonneg, of j] rng(1) by linarith
  qed
  show "\<forall>j<length (c_cnt st). INT_MIN < c_cnt st ! j \<and> c_cnt st ! j \<le> INT_MAX"
  proof (intro allI impI conjI)
    fix j assume j: "j < length (c_cnt st)"
    with nonneg have "0 \<le> c_cnt st ! j" by blast
    then show "INT_MIN < c_cnt st ! j" by (simp add: INT_MIN_def)
    show "c_cnt st ! j \<le> INT_MAX" using nth_le_sum[OF nonneg j] rng(1) by linarith
  qed
qed

lemma nth_le_sum_list:
  fixes xs :: "int list"
  assumes "\<forall>j<length xs. 0 \<le> xs ! j" "r < length xs"
  shows "sum_list (xs[r := 0]) = sum_list xs - xs ! r" "0 \<le> sum_list (xs[r := 0])"
proof -
  show "sum_list (xs[r := 0]) = sum_list xs - xs ! r"
    using assms(2) by (induction xs arbitrary: r) (auto split: nat.splits)
  have "\<forall>x\<in>set (xs[r := 0]). 0 \<le> x"
    using assms by (auto simp: set_conv_nth nth_list_update)
  then show "0 \<le> sum_list (xs[r := 0])" by (simp add: sum_list_nonneg)
qed

lemma pick_pos:
  fixes xs :: "int list"
  assumes "j < length xs" "sum_list (take j xs) \<le> k" "k < sum_list (take (Suc j) xs)"
  shows "0 < xs ! j"
  using assms by (simp add: sum_list_take_Suc)

lemma loo_enter_inv:
  assumes len: "length (c_cnt st) = n"
    and nonneg: "\<forall>j<n. 0 \<le> c_cnt st ! j"
    and total: "sum_list (c_cnt st) = N_tot st"
    and pos: "0 < N_tot st"
    and m0: "m_loo st = 0"
    and r: "u \<longrightarrow> r < n"
  shows "length (c_cnt (loo_enter u r st)) = n"
    and "\<forall>j<n. 0 \<le> c_cnt (loo_enter u r st) ! j"
    and "sum_list (c_cnt (loo_enter u r st)) = N_tot st - m_loo (loo_enter u r st)"
    and "0 < N_tot st - m_loo (loo_enter u r st)"
    and "N_tot (loo_enter u r st) = N_tot st"
    and "rng (loo_enter u r st) = rng st"
    and "bootsam (loo_enter u r st) = bootsam st"
    and "m_loo (loo_enter u r st) = (if u \<and> c_cnt st ! r \<noteq> N_tot st then c_cnt st ! r else 0)"
    and "LOO (loo_enter u r st) = (if u \<and> c_cnt st ! r \<noteq> N_tot st then True else LOO st)"
    and "c_cnt (loo_enter u r st) = (if u \<and> c_cnt st ! r \<noteq> N_tot st then (c_cnt st)[r := 0] else c_cnt st)"
proof -
  show "length (c_cnt (loo_enter u r st)) = n" using len by (simp add: loo_enter_def)
  show "\<forall>j<n. 0 \<le> c_cnt (loo_enter u r st) ! j"
    using nonneg len r by (auto simp add: loo_enter_def nth_list_update)
  show "N_tot (loo_enter u r st) = N_tot st" "rng (loo_enter u r st) = rng st"
    "bootsam (loo_enter u r st) = bootsam st"
    "m_loo (loo_enter u r st) = (if u \<and> c_cnt st ! r \<noteq> N_tot st then c_cnt st ! r else 0)"
    "LOO (loo_enter u r st) = (if u \<and> c_cnt st ! r \<noteq> N_tot st then True else LOO st)"
    "c_cnt (loo_enter u r st) = (if u \<and> c_cnt st ! r \<noteq> N_tot st then (c_cnt st)[r := 0] else c_cnt st)"
    using m0 by (simp_all add: loo_enter_def)
  show s: "sum_list (c_cnt (loo_enter u r st)) = N_tot st - m_loo (loo_enter u r st)"
    using nth_le_sum_list(1)[of "c_cnt st" r] nonneg len r total m0
    by (simp add: loo_enter_def)
  have "0 \<le> sum_list (c_cnt (loo_enter u r st))"
    using nth_le_sum_list(2)[of "c_cnt st" r] nonneg len r total pos
    by (simp add: loo_enter_def)
  with s have "0 \<le> N_tot st - m_loo (loo_enter u r st)" by simp
  moreover have "N_tot st - m_loo (loo_enter u r st) \<noteq> 0"
    using pos m0 by (simp add: loo_enter_def)
  ultimately show "0 < N_tot st - m_loo (loo_enter u r st)" by simp
qed

text \<open>
  One draw in a state where the counters are non-negative and add up to \<open>N\<close>, with \<open>N\<close> in
  the range of \<open>int\<close>: the walk breaks at an index with a positive counter.
\<close>

lemma row_walk:
  assumes len: "length (c_cnt st) = n"
    and nonneg: "\<forall>j<n. 0 \<le> c_cnt st ! j"
    and total: "sum_list (c_cnt st) = N_tot st"
    and pos: "0 < N_tot st" and top: "N_tot st \<le> INT_MAX"
    and m0: "m_loo st = 0"
    and r: "u \<longrightarrow> r < n"
    and dr: "is_float32 (draws (rng st))" "0 \<le> draws (rng st)" "draws (rng st) < 1"
    and st1: "st1 = loo_enter u r st" and k: "k = draw_k draws st1"
    and st2: "st2 = st1\<lparr>rng := rng st1 + 1\<rparr>"
  shows "0 \<le> k \<and> k < sum_list (c_cnt st1) \<and>
         (\<exists>j<n. 0 < c_cnt st1 ! j \<and>
            walk n k i b 0 (c_cnt st2 ! 0) st2 =
              Inr (st2\<lparr>bootsam := (bootsam st2)[i + b * n := int j + 1],
                      c_cnt := (c_cnt st2)[j := c_cnt st2 ! j - 1],
                      N_tot := N_tot st2 - 1\<rparr>))"
proof -
  note e = loo_enter_inv[OF len nonneg total pos m0 r]
  from total pos have n0: "0 < n" using len by (cases "c_cnt st") auto
  have le: "N_tot st - m_loo st1 \<le> INT_MAX"
  proof -
    have "0 \<le> m_loo st1" using e(8) nonneg r by (auto simp: st1)
    with top show ?thesis by simp
  qed
  have w: "wrap32 (N_tot st - m_loo st1) = N_tot st - m_loo st1"
    using e(4) le by (intro wrap32_id) (simp_all add: INT_MIN_def st1)
  have kk: "k = int_of_float (fl32 (draws (rng st) * fl32 (real_of_int (N_tot st - m_loo st1))))"
    using e(5,6) w by (simp add: k st1 draw_k_def)
  have kr: "0 \<le> k" "k < sum_list (c_cnt st1)"
    using draw_range[OF _ le dr] e(3,4) by (simp_all add: kk st1)
  have "\<exists>j'. 0 \<le> j' \<and> j' < n \<and> sum_list (take j' (c_cnt st2)) \<le> k
            \<and> k < sum_list (take (Suc j') (c_cnt st2))
            \<and> walk n k i b 0 (c_cnt st2 ! 0) st2 =
                Inr (st2\<lparr>bootsam := (bootsam st2)[i + b * n := int j' + 1],
                        c_cnt := (c_cnt st2)[j' := c_cnt st2 ! j' - 1],
                        N_tot := N_tot st2 - 1\<rparr>)"
  proof (intro walk_finds)
    show "length (c_cnt st2) = n" using e(1) by (simp add: st2 st1)
    show "0 < n" by (rule n0)
    show "c_cnt st2 ! 0 = sum_list (take (Suc 0) (c_cnt st2))"
      using n0 e(1) by (simp add: st2 st1 take_Suc_conv_app_nth)
    show "sum_list (take 0 (c_cnt st2)) \<le> k" using kr by simp
    show "k < sum_list (c_cnt st2)" using kr by (simp add: st2)
    show "\<forall>j<length (c_cnt st2). 0 \<le> c_cnt st2 ! j" using e(1,2) by (simp add: st2 st1)
    show "sum_list (c_cnt st2) \<le> INT_MAX" using e(3) le by (simp add: st2 st1)
    show "INT_MIN < N_tot st2" using e(5) pos by (simp add: st2 st1 INT_MIN_def)
    show "N_tot st2 \<le> INT_MAX" using e(5) top by (simp add: st2 st1)
  qed
  then obtain j where j: "j < n" "sum_list (take j (c_cnt st1)) \<le> k"
      "k < sum_list (take (Suc j) (c_cnt st1))"
    and w: "walk n k i b 0 (c_cnt st2 ! 0) st2 =
                Inr (st2\<lparr>bootsam := (bootsam st2)[i + b * n := int j + 1],
                        c_cnt := (c_cnt st2)[j := c_cnt st2 ! j - 1],
                        N_tot := N_tot st2 - 1\<rparr>)"
    by (auto simp: st2)
  have "0 < c_cnt st1 ! j" using pick_pos[OF _ j(2,3)] j(1) e(1) by (simp add: st1)
  with kr j(1) w show ?thesis by blast
qed

lemma row_body_step:
  assumes len: "length (c_cnt st) = n"
    and nonneg: "\<forall>j<n. 0 \<le> c_cnt st ! j"
    and total: "sum_list (c_cnt st) = N_tot st"
    and pos: "0 < N_tot st" and top: "N_tot st \<le> INT_MAX"
    and m0: "m_loo st = 0" and loo0: "\<not> LOO st"
    and r: "u \<longrightarrow> r < n"
    and dr: "is_float32 (draws (rng st))" "0 \<le> draws (rng st)" "draws (rng st) < 1"
  shows "\<exists>j<n. 0 < c_cnt st ! j \<and> (u \<and> c_cnt st ! r \<noteq> N_tot st \<longrightarrow> j \<noteq> r) \<and>
           row_body draws u n r b i st =
             Inr (st\<lparr>bootsam := (bootsam st)[i + b * n := int j + 1],
                     c_cnt := (c_cnt st)[j := c_cnt st ! j - 1],
                     N_tot := N_tot st - 1,
                     rng := rng st + 1\<rparr>)"
proof -
  define st1 where "st1 = loo_enter u r st"
  define k where "k = draw_k draws st1"
  define st2 where "st2 = st1\<lparr>rng := rng st1 + 1\<rparr>"
  note e = loo_enter_inv[OF len nonneg total pos m0 r]
  from row_walk[OF len nonneg total pos top m0 r dr st1_def k_def st2_def, of i b]
  obtain j where j: "j < n" "0 < c_cnt st1 ! j"
    and w: "walk n k i b 0 (c_cnt st2 ! 0) st2 =
              Inr (st2\<lparr>bootsam := (bootsam st2)[i + b * n := int j + 1],
                      c_cnt := (c_cnt st2)[j := c_cnt st2 ! j - 1],
                      N_tot := N_tot st2 - 1\<rparr>)"
    by blast
  have rb: "row_body draws u n r b i st =
          Inr (loo_leave r (st2\<lparr>bootsam := (bootsam st2)[i + b * n := int j + 1],
                      c_cnt := (c_cnt st2)[j := c_cnt st2 ! j - 1],
                      N_tot := N_tot st2 - 1\<rparr>))"
  proof -
    have "row_body draws u n r b i st =
            (case walk n k i b 0 (c_cnt st2 ! 0) st2 of
               Inl e \<Rightarrow> Inl e
             | Inr st3 \<Rightarrow> Inr (loo_leave r st3))"
      unfolding row_body_def Let_def st1_def k_def st2_def by (rule refl)
    then show ?thesis by (simp only: w sum.case)
  qed
  show ?thesis
  proof (cases "u \<and> c_cnt st ! r \<noteq> N_tot st")
    case True
    then have rn: "r < n" using r by simp
    have c1: "c_cnt st1 = (c_cnt st)[r := 0]" using True e(10) by (simp add: st1_def)
    have jr: "j \<noteq> r" and cj: "0 < c_cnt st ! j" "c_cnt st1 ! j = c_cnt st ! j"
      using j(2) rn len by (auto simp: c1 nth_list_update split: if_splits)
    have upd: "((c_cnt st)[r := 0, j := c_cnt st ! j - 1])[r := c_cnt st ! r]
                 = (c_cnt st)[j := c_cnt st ! j - 1]"
      using jr by (simp add: list_update_swap[of j r])
    have e1: "st1 = st\<lparr>m_loo := c_cnt st ! r, c_cnt := (c_cnt st)[r := 0], LOO := True\<rparr>"
      using True by (simp add: st1_def loo_enter_def)
    have "row_body draws u n r b i st =
             Inr (st\<lparr>bootsam := (bootsam st)[i + b * n := int j + 1],
                     c_cnt := (c_cnt st)[j := c_cnt st ! j - 1],
                     N_tot := N_tot st - 1,
                     rng := rng st + 1\<rparr>)"
      unfolding rb using upd jr m0 loo0 rn len
      by (simp add: st2_def e1 loo_leave_def)
    with j(1) jr cj show ?thesis by blast
  next
    case False
    have e1: "st1 = st" using False by (auto simp: st1_def loo_enter_def)
    have "row_body draws u n r b i st =
             Inr (st\<lparr>bootsam := (bootsam st)[i + b * n := int j + 1],
                     c_cnt := (c_cnt st)[j := c_cnt st ! j - 1],
                     N_tot := N_tot st - 1,
                     rng := rng st + 1\<rparr>)"
      unfolding rb using loo0 by (simp add: st2_def e1 loo_leave_def)
    with j False e1 show ?thesis by blast
  qed
qed

lemma sum_list_update_int:
  fixes xs :: "int list"
  shows "j < length xs \<Longrightarrow> sum_list (xs[j := v]) = sum_list xs - xs ! j + v"
  by (induction xs arbitrary: j) (auto split: nat.splits)

lemma count_list_update:
  "t < length bs \<Longrightarrow> bs ! t \<noteq> w \<Longrightarrow>
     count_list (bs[t := v]) w = count_list bs w + (if v = w then 1 else 0)"
  by (induction bs arbitrary: t) (auto split: nat.splits)

lemma boot_inv_init:
  "int (n * nboot) \<le> INT_MAX \<Longrightarrow> boot_inv n nboot 0 (init_state n nboot)"
proof -
  assume ov: "int (n * nboot) \<le> INT_MAX"
  have "INT_MIN \<le> int (n * nboot)"
    unfolding INT_MIN_def by (rule order_trans[of _ 0]) simp_all
  from wrap32_id[OF this ov] have "wrap32 (int n * int nboot) = int n * int nboot"
    by simp
  then show ?thesis
    by (simp add: boot_inv_def init_state_def sum_list_replicate)
qed

lemma boot_inv_step:
  assumes inv: "boot_inv n nboot t st" and t: "t < n * nboot"
    and ov: "int (n * nboot) \<le> INT_MAX"
    and dr: "is_float32 (draws t)" "0 \<le> draws t" "draws t < 1"
  shows "\<exists>st'. row_body draws u n (loo_index u n (t div n))
                  (t div n) (t mod n) st = Inr st' \<and> boot_inv n nboot (Suc t) st'"
proof -
  let ?r = "loo_index u n (t div n)"
  from t have n0: "0 < n" by (cases n) auto
  have r: "u \<longrightarrow> ?r < n"
  proof
    assume u
    have "t div n - ((t div n) div n) * n = (t div n) mod n"
      by (simp add: minus_div_mult_eq_mod)
    then show "?r < n" using n0 \<open>u\<close> by (simp add: loo_index_def)
  qed
  have "int t < int (n * nboot)" using t by (simp only: of_nat_less_iff)
  then have pos: "0 < N_tot st" using inv by (simp add: boot_inv_def)
  have top: "N_tot st \<le> INT_MAX" using inv ov by (simp add: boot_inv_def)
  have dr': "is_float32 (draws (rng st))" "0 \<le> draws (rng st)" "draws (rng st) < 1"
    using inv dr by (simp_all add: boot_inv_def)
  from inv have len: "length (c_cnt st) = n" and nonneg: "\<forall>j<n. 0 \<le> c_cnt st ! j"
    and total: "sum_list (c_cnt st) = N_tot st" and m0: "m_loo st = 0" and l0: "\<not> LOO st"
    by (simp_all add: boot_inv_def)
  from row_body_step[where st=st and n=n and u=u and r="?r" and draws=draws
                        and b="t div n" and i="t mod n", OF len nonneg total pos top m0 l0 r dr']
  obtain j where j: "j < n" "0 < c_cnt st ! j"
    and rb: "row_body draws u n ?r (t div n) (t mod n) st =
             Inr (st\<lparr>bootsam := (bootsam st)[t mod n + t div n * n := int j + 1],
                     c_cnt := (c_cnt st)[j := c_cnt st ! j - 1],
                     N_tot := N_tot st - 1,
                     rng := rng st + 1\<rparr>)"
    by blast
  let ?st' = "st\<lparr>bootsam := (bootsam st)[t := int j + 1],
                 c_cnt := (c_cnt st)[j := c_cnt st ! j - 1],
                 N_tot := N_tot st - 1, rng := rng st + 1\<rparr>"
  have rb': "row_body draws u n ?r (t div n) (t mod n) st = Inr ?st'"
    using rb by simp
  have bt: "bootsam st ! t = 0" "t < length (bootsam st)"
    using inv t by (simp_all add: boot_inv_def)
  have cnt: "\<forall>j'<n. int (count_list (bootsam st) (int j' + 1)) + c_cnt st ! j' = int nboot"
    using inv by (simp add: boot_inv_def)
  have c1: "\<forall>j'<n. 0 \<le> (c_cnt st)[j := c_cnt st ! j - 1] ! j'"
    using nonneg j len by (simp add: nth_list_update)
  have c2: "sum_list ((c_cnt st)[j := c_cnt st ! j - 1]) = N_tot st - 1"
    using j len total by (simp add: sum_list_update_int)
  have c3: "\<forall>p<n * nboot. Suc t \<le> p \<longrightarrow> (bootsam st)[t := int j + 1] ! p = 0"
    using inv by (simp add: boot_inv_def)
  have c4: "\<forall>p<Suc t. 1 \<le> (bootsam st)[t := int j + 1] ! p \<and> (bootsam st)[t := int j + 1] ! p \<le> int n"
    using inv bt j by (auto simp add: boot_inv_def nth_list_update)
  have c5: "\<forall>j'<n. int (count_list ((bootsam st)[t := int j + 1]) (int j' + 1))
                 + (c_cnt st)[j := c_cnt st ! j - 1] ! j' = int nboot"
  proof (intro allI impI)
    fix j' assume "j' < n"
    have "count_list ((bootsam st)[t := int j + 1]) (int j' + 1)
            = count_list (bootsam st) (int j' + 1) + (if int j + 1 = int j' + 1 then 1 else 0)"
      using bt by (intro count_list_update) simp_all
    then show "int (count_list ((bootsam st)[t := int j + 1]) (int j' + 1))
                 + (c_cnt st)[j := c_cnt st ! j - 1] ! j' = int nboot"
      using cnt \<open>j' < n\<close> j len by (auto simp: nth_list_update)
  qed
  have "boot_inv n nboot (Suc t) ?st'"
    unfolding boot_inv_def using inv c1 c2 c3 c4 c5
    by (simp add: boot_inv_def)
  with rb' show ?thesis by blast
qed

lemma boot_prefix_inv:
  assumes "\<forall>t. is_float32 (draws t) \<and> 0 \<le> draws t \<and> draws t < 1" "t \<le> n * nboot"
    and ov: "int (n * nboot) \<le> INT_MAX"
  shows "\<exists>st. boot_prefix draws u n nboot t = Inr st \<and> boot_inv n nboot t st"
  using assms(2)
proof (induction t)
  case 0
  show ?case by (simp add: boot_inv_init[OF ov])
next
  case (Suc t)
  then obtain st where st: "boot_prefix draws u n nboot t = Inr st" "boot_inv n nboot t st"
    by auto
  from boot_inv_step[OF st(2) _ ov, of draws u] Suc.prems assms(1)
  show ?case by (simp add: st(1))
qed

lemma boot_prefix_error:
  "boot_prefix draws u n nboot t = Inl e \<Longrightarrow> boot_prefix draws u n nboot (t + d) = Inl e"
  by (induction d) simp_all

lemma rows_loop_prefix:
  assumes "0 < n"
  shows "i \<le> n \<Longrightarrow> boot_prefix draws u n nboot (b * n + i) = Inr st \<Longrightarrow>
     rows_loop draws u n (loo_index u n b) b i st
       = boot_prefix draws u n nboot (b * n + n)"
proof (induction "n - i" arbitrary: i st)
  case 0
  then have "i = n" by simp
  with 0 show ?case by (simp add: rows_loop.simps[of _ _ n])
next
  case (Suc k)
  then have lt: "i < n" by simp
  have dm: "(b * n + i) div n = b" "(b * n + i) mod n = i"
    using lt by simp_all
  let ?r = "loo_index u n b"
  have nxt: "boot_prefix draws u n nboot (Suc (b * n + i)) = row_body draws u n ?r b i st"
    using Suc.prems(2) dm by simp
  show ?case
  proof (cases "row_body draws u n ?r b i st")
    case (Inl e)
    with nxt have "boot_prefix draws u n nboot (Suc (b * n + i)) = Inl e" by simp
    from boot_prefix_error[OF this, of "n - Suc i"] lt
    have "boot_prefix draws u n nboot (b * n + n) = Inl e" by simp
    with Inl lt show ?thesis by (simp add: rows_loop.simps[of _ _ n _ _ i])
  next
    case (Inr st')
    with nxt have p: "boot_prefix draws u n nboot (b * n + (i + 1)) = Inr st'" by simp
    have "rows_loop draws u n ?r b (i + 1) st' = boot_prefix draws u n nboot (b * n + n)"
      using Suc.hyps lt p by (intro Suc.hyps(1)) simp_all
    with Inr lt show ?thesis by (simp add: rows_loop.simps[of _ _ n _ _ i])
  qed
qed

lemma cols_loop_prefix:
  assumes "0 < n"
  shows "b \<le> nboot \<Longrightarrow> boot_prefix draws u n nboot (b * n) = Inr st \<Longrightarrow>
     cols_loop draws u n nboot b st = boot_prefix draws u n nboot (nboot * n)"
proof (induction "nboot - b" arbitrary: b st)
  case 0
  then have "b = nboot" by simp
  with 0 show ?case by (simp add: cols_loop.simps[of _ _ _ nboot])
next
  case (Suc k)
  then have lt: "b < nboot" by simp
  let ?r = "loo_index u n b"
  have rl: "rows_loop draws u n ?r b 0 st = boot_prefix draws u n nboot (b * n + n)"
    using rows_loop_prefix[OF assms, of 0 draws u nboot b st] Suc.prems(2) by simp
  show ?case
  proof (cases "rows_loop draws u n ?r b 0 st")
    case (Inl e)
    with rl have "boot_prefix draws u n nboot (b * n + n) = Inl e" by simp
    have "b * n + n + (nboot - Suc b) * n = nboot * n"
    proof -
      have "b * n + n + (nboot - Suc b) * n = (Suc b + (nboot - Suc b)) * n"
        by (simp only: add_mult_distrib mult_Suc add.commute[of n])
      then show ?thesis using lt by simp
    qed
    with boot_prefix_error[OF \<open>boot_prefix draws u n nboot (b * n + n) = Inl e\<close>, of "(nboot - Suc b) * n"]
    have "boot_prefix draws u n nboot (nboot * n) = Inl e"
      by simp
    with Inl lt assms show ?thesis by (simp add: cols_loop.simps[of _ _ _ nboot b])
  next
    case (Inr st')
    with rl have p: "boot_prefix draws u n nboot ((b + 1) * n) = Inr st'"
      by (simp add: add.commute)
    have "cols_loop draws u n nboot (b + 1) st' = boot_prefix draws u n nboot (nboot * n)"
      using Suc.hyps lt p by (intro Suc.hyps(1)) simp_all
    with Inr lt assms show ?thesis by (simp add: cols_loop.simps[of _ _ _ nboot b])
  qed
qed

lemma cols_loop_run:
  "0 < n \<Longrightarrow> cols_loop draws u n nboot 0 (init_state n nboot) = boot_prefix draws u n nboot (n * nboot)"
  using cols_loop_prefix[of n 0 nboot draws u "init_state n nboot"] by (simp add: mult.commute)

lemma boot_inv_final:
  assumes "boot_inv n nboot (n * nboot) st"
  shows "length (bootsam st) = n * nboot"
    and "\<forall>x\<in>set (bootsam st). 1 \<le> x \<and> x \<le> int n"
    and "\<forall>j<n. count_list (bootsam st) (int j + 1) = nboot"
    and "\<forall>x\<in>set (c_cnt st). x = 0"
proof -
  from assms have len: "length (c_cnt st) = n" and nonneg: "\<forall>j<n. 0 \<le> c_cnt st ! j"
    and z: "sum_list (c_cnt st) = 0"
    and cnt: "\<forall>j<n. int (count_list (bootsam st) (int j + 1)) + c_cnt st ! j = int nboot"
    by (simp_all add: boot_inv_def)
  from nonneg len have "\<forall>x\<in>set (c_cnt st). 0 \<le> x" by (auto simp: set_conv_nth)
  with z show z': "\<forall>x\<in>set (c_cnt st). x = 0"
    by (simp add: sum_list_nonneg_eq_0_iff)
  then have "\<forall>j<n. c_cnt st ! j = 0" using len by simp
  with cnt show "\<forall>j<n. count_list (bootsam st) (int j + 1) = nboot" by simp
  show "length (bootsam st) = n * nboot" using assms by (simp add: boot_inv_def)
  then show "\<forall>x\<in>set (bootsam st). 1 \<le> x \<and> x \<le> int n"
    using assms by (auto simp: boot_inv_def set_conv_nth)
qed

lemma boot_run:
  assumes n: "0 < n" "n \<le> 32767" and nb: "0 \<le> nboot"
  shows "boot [Num n, Num nboot, Bool u] draws =
           (case boot_prefix draws u (nat n) (nat nboot) (nat n * nat nboot) of
              Inl e \<Rightarrow> Inl e
            | Inr st \<Rightarrow> Inr \<lparr>rows = nat n, columns = nat nboot, elems = bootsam st\<rparr>)"
  using assms cols_loop_run[of "nat n" draws u "nat nboot"]
  by (simp add: boot_def short_of_int_id Let_def)

lemma boot_result:
  assumes n: "0 < n" "n \<le> 32767" and nb: "0 < nboot" and ov: "n * nboot \<le> INT_MAX"
    and dr: "\<forall>t. is_float32 (draws t) \<and> 0 \<le> draws t \<and> draws t < 1"
  shows "\<exists>st. boot [Num n, Num nboot, Bool u] draws =
                Inr \<lparr>rows = nat n, columns = nat nboot, elems = bootsam st\<rparr> \<and>
              boot_inv (nat n) (nat nboot) (nat n * nat nboot) st"
proof -
  have ov': "int (nat n * nat nboot) \<le> INT_MAX" using n nb ov by simp
  from boot_prefix_inv[OF dr _ ov', of "nat n * nat nboot" u]
  obtain st where st: "boot_prefix draws u (nat n) (nat nboot) (nat n * nat nboot) = Inr st"
    and inv: "boot_inv (nat n) (nat nboot) (nat n * nat nboot) st"
    by auto
  have "boot [Num n, Num nboot, Bool u] draws =
               Inr \<lparr>rows = nat n, columns = nat nboot, elems = bootsam st\<rparr>"
    using boot_run[OF n, of nboot u draws] nb st by simp
  with inv show ?thesis by blast
qed

lemma walk_error: "walk n k i b j d st = Inl e \<Longrightarrow> e = OutOfBounds"
proof (induction n k i b j d st rule: walk.induct)
  case (1 n k i b j d st)
  from "1.prems" show ?case
    by (subst (asm) walk.simps) (auto split: if_splits dest: "1.IH")
qed

lemma row_body_error: "row_body draws u n r b i st = Inl e \<Longrightarrow> e = OutOfBounds"
  by (auto simp: row_body_def Let_def split: sum.splits dest: walk_error)

lemma rows_loop_error: "rows_loop draws u n r b i st = Inl e \<Longrightarrow> e = OutOfBounds"
proof (induction draws u n r b i st rule: rows_loop.induct)
  case (1 draws u n r b i st)
  from "1.prems" show ?case
    by (subst (asm) rows_loop.simps) (auto split: if_splits sum.splits dest: "1.IH" row_body_error)
qed

lemma cols_loop_error:
  "cols_loop draws u n nboot b st = Inl e \<Longrightarrow> e = OutOfBounds \<or> e = DivByZero"
proof (induction draws u n nboot b st rule: cols_loop.induct)
  case (1 draws u n nboot b st)
  from "1.prems" show ?case
    by (subst (asm) cols_loop.simps) (auto split: if_splits sum.splits dest: "1.IH" rows_loop_error)
qed

lemma cols_loop_no_rows:
  "cols_loop draws False 0 nboot b st = Inr st"
proof (induction "nboot - b" arbitrary: b)
  case 0
  then show ?case by (simp add: cols_loop.simps[of _ _ _ nboot b])
next
  case (Suc k)
  then have "cols_loop draws False 0 nboot (b + 1) st = Inr st" by simp
  with Suc.hyps(2) show ?case
    by (simp add: cols_loop.simps[of _ _ _ nboot b] rows_loop.simps[of _ _ 0])
qed

lemma boot_prefix_error_kind:
  "boot_prefix draws u n nboot t = Inl e \<Longrightarrow> e = OutOfBounds"
  by (induction t) (auto simp: init_state_def split: sum.splits dest: row_body_error)

lemma walk_bootsam:
  "walk n k i b j d st = Inr st' \<Longrightarrow> \<exists>v. bootsam st' = (bootsam st)[i + b * n := v]"
proof (induction n k i b j d st rule: walk.induct)
  case (1 n k i b j d st)
  show ?case
  proof (cases "j < n")
    case False
    with "1.prems" have "st' = st" by (simp add: walk.simps[of n k i b j])
    then have "bootsam st' = (bootsam st)[i + b * n := bootsam st ! (i + b * n)]" by simp
    then show ?thesis ..
  next
    case True
    note j = this
    show ?thesis
    proof (cases "k < d")
      case True
      with j "1.prems" have "bootsam st' = (bootsam st)[i + b * n := int j + 1]"
        by (auto simp add: walk.simps[of n k i b j])
      then show ?thesis ..
    next
      case False
      with j "1.prems" have lt: "j + 1 < length (c_cnt st)"
        and w: "walk n k i b (j + 1) (wrap32 (d + c_cnt st ! (j + 1))) st = Inr st'"
        by (auto simp add: walk.simps[of n k i b j] split: if_splits)
      from "1.IH"[OF j False lt w] show ?thesis .
    qed
  qed
qed

lemma row_body_bootsam:
  assumes "row_body draws u n r b i st = Inr st'"
  shows "\<exists>v. bootsam st' = (bootsam st)[i + b * n := v]"
proof -
  define st2 where "st2 = (loo_enter u r st)\<lparr>rng := rng (loo_enter u r st) + 1\<rparr>"
  from assms obtain st3 where
    w: "walk n (draw_k draws (loo_enter u r st)) i b 0 (c_cnt st2 ! 0) st2 = Inr st3"
    and st': "st' = loo_leave r st3"
    by (auto simp: row_body_def Let_def st2_def split: sum.splits)
  from walk_bootsam[OF w] obtain v where "bootsam st3 = (bootsam st2)[i + b * n := v]" ..
  moreover have "bootsam st2 = bootsam st" by (simp add: st2_def loo_enter_def)
  moreover have "bootsam st' = bootsam st3" by (simp add: st' loo_leave_def)
  ultimately show ?thesis by auto
qed

text \<open>An entry of the matrix is written once: later draws leave it as it is.\<close>

lemma boot_prefix_persist:
  "boot_prefix draws u n nboot (t + d) = Inr st' \<Longrightarrow>
     \<exists>st. boot_prefix draws u n nboot t = Inr st \<and> take t (bootsam st') = take t (bootsam st)"
proof (induction d arbitrary: st')
  case 0
  then show ?case by simp
next
  case (Suc d)
  from Suc.prems obtain st1 where p: "boot_prefix draws u n nboot (t + d) = Inr st1"
    and rb: "row_body draws u n (loo_index u n ((t + d) div n)) ((t + d) div n) ((t + d) mod n) st1
               = Inr st'"
    by (auto split: sum.splits)
  from row_body_bootsam[OF rb] obtain v where
    "bootsam st' = (bootsam st1)[(t + d) mod n + (t + d) div n * n := v]" ..
  then have "bootsam st' = (bootsam st1)[t + d := v]" by (simp only: mod_div_mult_eq)
  then have "take t (bootsam st') = take t (bootsam st1)" by simp
  with Suc.IH[OF p] show ?case by auto
qed

text \<open>
  Claim C2 (amended). \<open>boot\<close> fails with the usage error when it is not given three
  arguments; there is no check of \<open>n\<close> or \<open>nboot\<close>, and with three arguments and
  non-negative \<open>n\<close> and \<open>nboot\<close> that error is never raised. With \<open>n = 0\<close> (and the unbiased flag off)
  or \<open>nboot = 0\<close> no loop body runs and an empty matrix of shape \<open>0 x nboot\<close> or \<open>n x 0\<close> is
  returned.
\<close>

theorem boot_invalid_argument:
  "(length args \<noteq> 3 \<longrightarrow> boot args draws = Inl InvalidArgument) \<and>
   (length args = 3 \<and> 0 \<le> short_of_int (int_value (args ! 0)) \<and> 0 \<le> int_value (args ! 1) \<longrightarrow>
      boot args draws \<noteq> Inl InvalidArgument) \<and>
   (0 \<le> nboot \<longrightarrow>
      boot [Num 0, Num nboot, Bool False] draws = Inr \<lparr>rows = 0, columns = nat nboot, elems = []\<rparr>) \<and>
   (0 \<le> n \<and> n \<le> 32767 \<longrightarrow>
      boot [Num n, Num 0, Bool u] draws = Inr \<lparr>rows = nat n, columns = 0, elems = []\<rparr>)"
proof (intro conjI impI)
  show "boot args draws = Inl InvalidArgument" if "length args \<noteq> 3"
    using that by (simp add: boot_def)
  show "boot args draws \<noteq> Inl InvalidArgument"
    if "length args = 3 \<and> 0 \<le> short_of_int (int_value (args ! 0)) \<and> 0 \<le> int_value (args ! 1)"
    using that by (auto simp: boot_def Let_def split: sum.splits dest: cols_loop_error)
  show "boot [Num 0, Num nboot, Bool False] draws = Inr \<lparr>rows = 0, columns = nat nboot, elems = []\<rparr>"
    if "0 \<le> nboot"
    using that
    by (simp add: boot_def short_of_int_def cols_loop_no_rows init_state_def)
  show "boot [Num n, Num 0, Bool u] draws = Inr \<lparr>rows = nat n, columns = 0, elems = []\<rparr>"
    if "0 \<le> n \<and> n \<le> 32767"
    using that
    by (simp add: boot_def short_of_int_id cols_loop.simps[of _ _ _ 0] init_state_def)
qed

theorem boot_invalid_argument_witness:
  "boot [Num 3, Num 2] half_draws = Inl InvalidArgument \<and>
   boot [Num 0, Num 5, Bool False] half_draws = Inr \<lparr>rows = 0, columns = 5, elems = []\<rparr> \<and>
   boot [Num 5, Num 0, Bool False] half_draws = Inr \<lparr>rows = 5, columns = 0, elems = []\<rparr>"
  using boot_invalid_argument[of "[Num 3, Num 2]" half_draws 5 5 False]
  by simp

text \<open>Claim C2 as stated fails: \<open>boot (0, 5, false)\<close> returns a matrix, not an error.\<close>

theorem boot_zero_rows_counterexample:
  "boot [Num 0, Num 5, Bool False] half_draws = Inr \<lparr>rows = 0, columns = 5, elems = []\<rparr>"
  by (simp add: boot_def short_of_int_def init_state_def cols_loop.simps rows_loop.simps)

lemma ulp_exp_abs_le:
  assumes "x \<noteq> 0" and "\<bar>x\<bar> < 2 powi (c + int p)" and "emin \<le> c"
  shows "ulp_exp p emin x \<le> c"
proof -
  have "0 < \<bar>x\<bar>" using assms(1) by simp
  from ilog2_less[OF this assms(2)] assms(3) show ?thesis by (simp add: ulp_exp_def)
qed

text \<open>With a draw of one half and a negative \<open>N - m\<close> of large magnitude, \<open>k\<close> is negative.\<close>

lemma draw_negative_bound:
  assumes "INT_MIN \<le> X" "X \<le> - 16777216"
  shows "int_of_float (fl32 (1 / 2 * fl32 (real_of_int X))) \<le> - 8388608"
proof -
  define x where "x = real_of_int X"
  have x: "- 2147483648 \<le> x" "x \<le> - 16777216" using assms by (simp_all add: x_def INT_MIN_def)
  then have x0: "x \<noteq> 0" by simp
  have "\<bar>x\<bar> < 2 powi (8 + int 24)" using x by simp
  then have u1: "ulp_exp 24 (- 149) x \<le> 8" using x0 by (intro ulp_exp_abs_le) simp_all
  have "x \<le> of_int (- 65536) * 2 powi 8" using x by simp
  from round_bin_le[OF u1 this x0] have a: "fl32 x \<le> - 16777216" by (simp add: fl32_def)
  have "of_int (- 8388608) * 2 powi 8 \<le> x" using x by simp
  from round_bin_ge[OF u1 this x0] have b: "- 2147483648 \<le> fl32 x" by (simp add: fl32_def)
  define y where "y = 1 / 2 * fl32 x"
  have y: "- 1073741824 \<le> y" "y \<le> - 8388608" using a b by (simp_all add: y_def)
  then have y0: "y \<noteq> 0" by simp
  have "\<bar>y\<bar> < 2 powi (7 + int 24)" using y by simp
  then have u2: "ulp_exp 24 (- 149) y \<le> 7" using y0 by (intro ulp_exp_abs_le) simp_all
  have "y \<le> of_int (- 65536) * 2 powi 7" using y by simp
  from round_bin_le[OF u2 this y0] have c: "fl32 y \<le> - 8388608" by (simp add: fl32_def)
  have "int_of_float (fl32 y) \<le> - 8388608"
  proof (cases "real_of_int INT_MIN - 1 < fl32 y \<and> fl32 y < real_of_int INT_MAX + 1")
    case True
    have "\<lceil>fl32 y\<rceil> \<le> - 8388608" using c by (simp add: ceiling_le_iff)
    with True c show ?thesis by (simp add: int_of_float_def trunc_def)
  next
    case False
    then have "int_of_float (fl32 y) = INT_MIN" unfolding int_of_float_def by (rule if_not_P)
    then show ?thesis by (simp add: INT_MIN_def)
  qed
  then show ?thesis by (simp add: y_def x_def)
qed

lemma fill_next:
  assumes "t < M"
  shows "(replicate t (1::int) @ replicate (M - t) 0)[t := 1]
           = replicate (Suc t) 1 @ replicate (M - Suc t) 0"
proof -
  from assms obtain r where r: "M - t = Suc r" by (cases "M - t") simp_all
  then have "M - Suc t = r" by simp
  with r show ?thesis by (simp add: list_update_append replicate_append_same)
qed

text \<open>
  A run whose product \<open>n * nboot\<close> wraps to a negative \<open>N\<close>: with every draw one half and the
  unbiased flag off, each of the first \<open>T\<close> draws has \<open>k < c[0]\<close>, selects index 1 and
  decrements \<open>c[0]\<close> and \<open>N\<close>.
\<close>

lemma wrapped_prefix:
  assumes n: "0 < n" and N0: "N0 = wrap32 (int n * int nboot)"
    and lo: "INT_MIN \<le> N0 - int T" and hi: "N0 \<le> - 16777216"
    and T: "T \<le> n * nboot" "- 8388608 \<le> int nboot - int T" "int nboot \<le> INT_MAX"
  shows "t \<le> T \<Longrightarrow>
     boot_prefix half_draws False n nboot t =
       Inr \<lparr>c_cnt = (replicate n (int nboot))[0 := int nboot - int t], N_tot = N0 - int t,
            m_loo = 0, LOO = False,
            bootsam = replicate t 1 @ replicate (n * nboot - t) 0, rng = t\<rparr>"
proof (induction t)
  case 0
  have "(replicate n (int nboot))[0 := int nboot] = replicate n (int nboot)"
    using n by (cases n) simp_all
  then show ?case by (simp add: init_state_def N0)
next
  case (Suc t)
  define st where "st = \<lparr>c_cnt = (replicate n (int nboot))[0 := int nboot - int t],
            N_tot = N0 - int t, m_loo = 0, LOO = False,
            bootsam = replicate t 1 @ replicate (n * nboot - t) 0, rng = t\<rparr>"
  from Suc have p: "boot_prefix half_draws False n nboot t = Inr st" by (simp add: st_def)
  have t: "t < T" using Suc.prems by simp
  have rngN: "INT_MIN \<le> N0 - int t - 1" "N0 - int t \<le> - 16777216"
    using lo hi t by simp_all
  have wN: "wrap32 (N0 - int t) = N0 - int t" "wrap32 (N0 - int t - 1) = N0 - int t - 1"
    using rngN by (simp_all add: wrap32_id INT_MAX_def)
  have "INT_MIN \<le> N0 - int t" using rngN by simp
  from draw_negative_bound[OF this rngN(2)] have k: "draw_k half_draws st \<le> - 8388608"
    by (simp add: draw_k_def st_def wN half_draws_def)
  have c0: "c_cnt st ! 0 = int nboot - int t" using n by (simp add: st_def)
  have d: "- 8388608 < int nboot - int t" using t T(2) by simp
  with k c0 have kd: "draw_k half_draws st < c_cnt st ! 0" by simp
  have wc: "wrap32 (int nboot - int t - 1) = int nboot - int t - 1"
    using d T(3) by (intro wrap32_id) (simp_all add: INT_MIN_def)
  have ix: "t mod n + t div n * n = t" by (rule mod_div_mult_eq)
  have tM: "t < n * nboot" using t T(1) by simp
  have "walk n (draw_k half_draws st) (t mod n) (t div n) 0 (c_cnt st ! 0) (st\<lparr>rng := rng st + 1\<rparr>)
           = Inr (st\<lparr>rng := rng st + 1, bootsam := (bootsam st)[t := 1],
                   c_cnt := (c_cnt st)[0 := wrap32 (c_cnt st ! 0 - 1)],
                   N_tot := wrap32 (N_tot st - 1)\<rparr>)"
    using kd n by (simp add: walk.simps[of n _ _ _ 0] ix)
  then have w: "walk n (draw_k half_draws st) (t mod n) (t div n) 0 (c_cnt st ! 0) (st\<lparr>rng := rng st + 1\<rparr>)
           = Inr \<lparr>c_cnt = (replicate n (int nboot))[0 := int nboot - int t - 1],
                  N_tot = N0 - int t - 1, m_loo = 0, LOO = False,
                  bootsam = replicate (Suc t) 1 @ replicate (n * nboot - Suc t) 0, rng = Suc t\<rparr>"
    using n by (simp add: st_def wc wN fill_next[OF tM])
  have "row_body half_draws False n (loo_index False n (t div n)) (t div n) (t mod n) st
          = Inr \<lparr>c_cnt = (replicate n (int nboot))[0 := int nboot - int t - 1],
                  N_tot = N0 - int t - 1, m_loo = 0, LOO = False,
                  bootsam = replicate (Suc t) 1 @ replicate (n * nboot - Suc t) 0, rng = Suc t\<rparr>"
    using w by (simp add: row_body_def Let_def loo_enter_def loo_leave_def)
  with p show ?case by (simp add: algebra_simps)
qed

lemma skewed_sums:
  fixes xs :: "int list"
  assumes "\<forall>j<length xs. 0 < j \<longrightarrow> 0 \<le> xs ! j" "0 < j" "j \<le> length xs"
  shows "xs ! 0 \<le> sum_list (take j xs)" "sum_list (take j xs) \<le> sum_list xs"
proof -
  from assms(2,3) obtain x ys where xs: "xs = x # ys" by (cases xs) auto
  from assms(2) obtain i where j: "j = Suc i" by (cases j) auto
  have nn: "\<forall>p<length ys. 0 \<le> ys ! p"
  proof (intro allI impI)
    fix p assume "p < length ys"
    with assms(1)[rule_format, of "Suc p"] xs show "0 \<le> ys ! p" by simp
  qed
  from sum_take_bounds[OF nn, of i] xs j
  show "xs ! 0 \<le> sum_list (take j xs)" "sum_list (take j xs) \<le> sum_list xs"
    by simp_all
qed

lemma count_list_replicate_same: "count_list (replicate n x) x = n"
  by (induction n) simp_all

lemma is_float32_half: "is_float32 (1 / 2)"
  by (simp add: is_float32_def fl32_def round_bin_def ulp_exp_def ilog2_def blen.simps rhe_def
      Let_def)

lemma wrapped_inv_step:
  assumes inv: "wrapped_inv n nboot ones t st"
    and t: "t < n * nboot" "ones \<le> t"
    and top: "int (n * nboot) - int t \<le> INT_MAX" and nb: "int nboot \<le> INT_MAX"
  shows "\<exists>st'. row_body half_draws False n (loo_index False n (t div n)) (t div n) (t mod n) st
                  = Inr st' \<and> wrapped_inv n nboot ones (Suc t) st'"
proof -
  from inv have len: "length (c_cnt st) = n" and c0: "c_cnt st ! 0 < 0" "INT_MIN < c_cnt st ! 0"
    and nn: "\<forall>j<n. 0 < j \<longrightarrow> 0 \<le> c_cnt st ! j" and ub: "\<forall>j<n. c_cnt st ! j \<le> int nboot"
    and total: "sum_list (c_cnt st) = N_tot st" and N: "N_tot st = int (n * nboot) - int t"
    and m0: "m_loo st = 0" and l0: "\<not> LOO st" and rt: "rng st = t"
    by (simp_all add: wrapped_inv_def)
  from inv obtain rest where bs: "bootsam st = replicate ones 1 @ rest" and r1: "1 \<notin> set rest"
    and lr: "length rest = n * nboot - ones"
    by (auto simp: wrapped_inv_def)
  from t have n0: "0 < n" by (cases n) auto
  have "int t < int (n * nboot)" using t(1) by (simp only: of_nat_less_iff)
  then have pos: "0 < N_tot st" using N by simp
  have topN: "N_tot st \<le> INT_MAX" using N top by simp
  define k where "k = draw_k half_draws st"
  have "wrap32 (N_tot st) = N_tot st" using pos topN by (intro wrap32_id) (simp_all add: INT_MIN_def)
  then have kk: "k = int_of_float (fl32 (1 / 2 * fl32 (real_of_int (N_tot st))))"
    by (simp add: k_def draw_k_def m0 half_draws_def)
  have kr: "0 \<le> k" "k < N_tot st"
    using draw_range[OF pos topN is_float32_half] by (simp_all add: kk)
  define st2 where "st2 = st\<lparr>rng := rng st + 1\<rparr>"
  have "\<exists>j'. 0 \<le> j' \<and> j' < n \<and> sum_list (take j' (c_cnt st2)) \<le> k
            \<and> k < sum_list (take (Suc j') (c_cnt st2))
            \<and> walk n k (t mod n) (t div n) 0 (c_cnt st2 ! 0) st2 =
                Inr (st2\<lparr>bootsam := (bootsam st2)[t mod n + t div n * n := int j' + 1],
                        c_cnt := (c_cnt st2)[j' := c_cnt st2 ! j' - 1],
                        N_tot := N_tot st2 - 1\<rparr>)"
  proof (intro walk_finds_gen)
    show "length (c_cnt st2) = n" using len by (simp add: st2_def)
    show "0 < n" by (rule n0)
    show "c_cnt st2 ! 0 = sum_list (take (Suc 0) (c_cnt st2))"
      using n0 len by (simp add: st2_def take_Suc_conv_app_nth)
    show "sum_list (take 0 (c_cnt st2)) \<le> k" using kr by simp
    show "k < sum_list (c_cnt st2)" using kr total by (simp add: st2_def)
    show "\<forall>j\<le>length (c_cnt st2). INT_MIN \<le> sum_list (take j (c_cnt st2)) \<and>
                 sum_list (take j (c_cnt st2)) \<le> INT_MAX"
    proof (intro allI impI)
      fix j assume j: "j \<le> length (c_cnt st2)"
      show "INT_MIN \<le> sum_list (take j (c_cnt st2)) \<and> sum_list (take j (c_cnt st2)) \<le> INT_MAX"
      proof (cases "j = 0")
        case True
        then show ?thesis by (simp add: INT_MIN_def INT_MAX_def)
      next
        case False
        then have j0: "0 < j" by simp
        have nn': "\<forall>j<length (c_cnt st). 0 < j \<longrightarrow> 0 \<le> c_cnt st ! j" using nn len by simp
        from skewed_sums[OF nn' j0] j
        have "c_cnt st ! 0 \<le> sum_list (take j (c_cnt st))"
          "sum_list (take j (c_cnt st)) \<le> sum_list (c_cnt st)"
          by (simp_all add: st2_def)
        with c0(2) total topN show ?thesis by (simp add: st2_def)
      qed
    qed
    show "\<forall>j<length (c_cnt st2). INT_MIN < c_cnt st2 ! j \<and> c_cnt st2 ! j \<le> INT_MAX"
    proof (intro allI impI)
      fix j assume j: "j < length (c_cnt st2)"
      then have jn: "j < n" using len by (simp add: st2_def)
      have "INT_MIN < c_cnt st ! j"
      proof (cases "j = 0")
        case True
        with c0(2) show ?thesis by simp
      next
        case False
        with nn jn have "0 \<le> c_cnt st ! j" by simp
        then show ?thesis by (simp add: INT_MIN_def)
      qed
      moreover have "c_cnt st ! j \<le> INT_MAX" using ub jn nb by fastforce
      ultimately show "INT_MIN < c_cnt st2 ! j \<and> c_cnt st2 ! j \<le> INT_MAX"
        by (simp add: st2_def)
    qed
    show "INT_MIN < N_tot st2" using pos by (simp add: st2_def INT_MIN_def)
    show "N_tot st2 \<le> INT_MAX" using topN by (simp add: st2_def)
  qed
  then obtain j where j: "j < n" "sum_list (take j (c_cnt st)) \<le> k"
      "k < sum_list (take (Suc j) (c_cnt st))"
    and w: "walk n k (t mod n) (t div n) 0 (c_cnt st2 ! 0) st2 =
                Inr (st2\<lparr>bootsam := (bootsam st2)[t mod n + t div n * n := int j + 1],
                        c_cnt := (c_cnt st2)[j := c_cnt st2 ! j - 1],
                        N_tot := N_tot st2 - 1\<rparr>)"
    by (auto simp: st2_def)
  have j0: "j \<noteq> 0"
  proof
    assume "j = 0"
    with j(3) n0 len have "k < c_cnt st ! 0" by (simp add: take_Suc_conv_app_nth)
    with kr(1) c0(1) show False by simp
  qed
  have cj: "0 < c_cnt st ! j" using pick_pos[OF _ j(2,3)] j(1) len by simp
  define st' where "st' = st\<lparr>rng := t + 1, bootsam := (bootsam st)[t := int j + 1],
                        c_cnt := (c_cnt st)[j := c_cnt st ! j - 1],
                        N_tot := N_tot st - 1\<rparr>"
  have ix: "t mod n + t div n * n = t" by (rule mod_div_mult_eq)
  have le: "loo_enter False r st = st" for r by (simp add: loo_enter_def)
  have rb: "row_body half_draws False n (loo_index False n (t div n)) (t div n) (t mod n) st
              = Inr st'"
  proof -
    have "row_body half_draws False n (loo_index False n (t div n)) (t div n) (t mod n) st =
            (case walk n k (t mod n) (t div n) 0 (c_cnt st2 ! 0) st2 of
               Inl e \<Rightarrow> Inl e
             | Inr st3 \<Rightarrow> Inr (loo_leave (loo_index False n (t div n)) st3))"
      unfolding row_body_def Let_def le k_def st2_def by (rule refl)
    also have "\<dots> = Inr (loo_leave (loo_index False n (t div n))
                 (st2\<lparr>bootsam := (bootsam st2)[t mod n + t div n * n := int j + 1],
                        c_cnt := (c_cnt st2)[j := c_cnt st2 ! j - 1],
                        N_tot := N_tot st2 - 1\<rparr>))"
      by (simp only: w sum.case)
    also have "\<dots> = Inr st'"
      using l0 by (simp add: loo_leave_def st2_def st'_def ix rt)
    finally show ?thesis .
  qed
  have "wrapped_inv n nboot ones (Suc t) st'"
    unfolding wrapped_inv_def
  proof (intro conjI)
    show "length (c_cnt st') = n" using len by (simp add: st'_def)
    show "c_cnt st' ! 0 < 0" "INT_MIN < c_cnt st' ! 0" using c0 j0 by (simp_all add: st'_def)
    show "\<forall>p<n. 0 < p \<longrightarrow> 0 \<le> c_cnt st' ! p"
    proof (intro allI impI)
      fix p assume p: "p < n" "0 < p"
      with nn have "0 \<le> c_cnt st ! p" by simp
      with cj show "0 \<le> c_cnt st' ! p"
        using len p j(1) by (auto simp add: st'_def nth_list_update)
    qed
    show "\<forall>p<n. c_cnt st' ! p \<le> int nboot"
    proof (intro allI impI)
      fix p assume p: "p < n"
      with ub have "c_cnt st ! p \<le> int nboot" by simp
      moreover from ub j(1) have "c_cnt st ! j \<le> int nboot" by simp
      ultimately show "c_cnt st' ! p \<le> int nboot"
        using len p j(1) by (auto simp add: st'_def nth_list_update)
    qed
    show "sum_list (c_cnt st') = N_tot st'"
      using j(1) len total by (simp add: st'_def sum_list_update_int)
    show "N_tot st' = int (n * nboot) - int (Suc t)" using N by (simp add: st'_def)
    show "m_loo st' = 0" "\<not> LOO st'" "rng st' = Suc t" using m0 l0 by (simp_all add: st'_def)
    have "bootsam st' = replicate ones 1 @ rest[t - ones := int j + 1]"
      using t(2) by (simp add: st'_def bs list_update_append)
    moreover have "1 \<notin> set (rest[t - ones := int j + 1])"
    proof
      assume "1 \<in> set (rest[t - ones := int j + 1])"
      with set_update_subset_insert[of rest "t - ones" "int j + 1"]
      have "1 \<in> insert (int j + 1) (set rest)" by blast
      with r1 j0 show False by simp
    qed
    moreover have "length (rest[t - ones := int j + 1]) = n * nboot - ones" using lr by simp
    ultimately show "\<exists>rest. bootsam st' = replicate ones 1 @ rest \<and> 1 \<notin> set rest \<and>
             length rest = n * nboot - ones"
      by blast
  qed
  with rb show ?thesis by blast
qed

lemma wrapped_inv_run:
  assumes p: "boot_prefix half_draws False n nboot t1 = Inr st1"
    and inv: "wrapped_inv n nboot ones t1 st1"
    and t1: "ones \<le> t1" and top: "int (n * nboot) - int t1 \<le> INT_MAX"
    and nb: "int nboot \<le> INT_MAX"
  shows "t1 + d \<le> n * nboot \<Longrightarrow>
     \<exists>st. boot_prefix half_draws False n nboot (t1 + d) = Inr st \<and>
          wrapped_inv n nboot ones (t1 + d) st"
proof (induction d)
  case 0
  with p inv show ?case by simp
next
  case (Suc d)
  then obtain st where st: "boot_prefix half_draws False n nboot (t1 + d) = Inr st"
    and i: "wrapped_inv n nboot ones (t1 + d) st"
    by auto
  have a: "t1 + d < n * nboot" "ones \<le> t1 + d" using Suc.prems t1 by simp_all
  have b: "int (n * nboot) - int (t1 + d) \<le> INT_MAX" using top by simp
  from wrapped_inv_step[OF i a b nb] st show ?case by simp
qed

lemma wrapped_total: "wrap32 (32767 * 65542) = - 2147352582"
  by (simp add: wrap32_def)

lemma wrapped_run:
  assumes "t \<le> 131066"
  shows "boot_prefix half_draws False 32767 65542 t =
       Inr \<lparr>c_cnt = (replicate 32767 65542)[0 := 65542 - int t], N_tot = - 2147352582 - int t,
            m_loo = 0, LOO = False,
            bootsam = replicate t 1 @ replicate (32767 * 65542 - t) 0, rng = t\<rparr>"
proof -
  have a: "(0::nat) < 32767" by simp
  have b: "- 2147352582 = wrap32 (int 32767 * int 65542)" using wrapped_total by simp
  have c: "INT_MIN \<le> - 2147352582 - int 131066" by (simp add: INT_MIN_def)
  have d: "(- 2147352582 :: int) \<le> - 16777216" by simp
  have e: "(131066::nat) \<le> 32767 * 65542" "- 8388608 \<le> int 65542 - int 131066"
    "int 65542 \<le> INT_MAX"
    by (simp_all add: INT_MAX_def)
  from wrapped_prefix[OF a b c d e assms] show ?thesis by simp
qed

text \<open>
  Draw number 131066 finds \<open>N = INT_MIN\<close>: it still selects index 1, and \<open>N -= 1\<close> wraps to
  \<open>INT_MAX\<close>, which is the sum of the counters again, with \<open>c[0] = -65525\<close>.
\<close>

lemma wrapped_run_turn:
  "boot_prefix half_draws False 32767 65542 131067 =
       Inr \<lparr>c_cnt = (replicate 32767 65542)[0 := - 65525], N_tot = 2147483647,
            m_loo = 0, LOO = False,
            bootsam = replicate 131067 1 @ replicate 2147483647 0, rng = 131067\<rparr>"
proof -
  define st where "st = \<lparr>c_cnt = (replicate 32767 65542)[0 := - 65524], N_tot = - 2147483648,
            m_loo = 0, LOO = False,
            bootsam = replicate 131066 1 @ replicate 2147483648 (0::int), rng = 131066\<rparr>"
  have p: "boot_prefix half_draws False 32767 65542 131066 = Inr st"
    using wrapped_run[of 131066] by (simp add: st_def)
  have f: "fl32 (- 2147483648) = - 2147483648" "fl32 (- 1073741824) = - 1073741824"
    by (simp_all add: fl32_def round_bin_def ulp_exp_def ilog2_def blen.simps rhe_def Let_def)
  have w: "wrap32 (- 2147483648) = - 2147483648" "wrap32 (- 2147483649) = 2147483647"
    "wrap32 (- 65525) = - 65525"
    by (simp_all add: wrap32_def)
  have k: "draw_k half_draws st = - 1073741824"
    by (simp add: draw_k_def st_def half_draws_def w f int_of_float_def trunc_def
        INT_MIN_def INT_MAX_def)
  have dm: "(131066::nat) div 32767 = 3" "(131066::nat) mod 32767 = 32765" by simp_all
  have fn: "(replicate 131066 (1::int) @ replicate 2147483648 0)[131066 := 1]
              = replicate 131067 1 @ replicate 2147483647 0"
    using fill_next[of 131066 2147614714] by simp
  have "row_body half_draws False 32767 (loo_index False 32767 3) 3 32765 st =
       Inr \<lparr>c_cnt = (replicate 32767 65542)[0 := - 65525], N_tot = 2147483647,
            m_loo = 0, LOO = False,
            bootsam = replicate 131067 1 @ replicate 2147483647 0, rng = 131067\<rparr>"
    by (simp add: row_body_def Let_def loo_enter_def loo_leave_def k walk.simps[of _ _ _ _ 0])
       (simp add: st_def w fn)
  with p have "boot_prefix half_draws False 32767 65542 (Suc 131066) =
       Inr \<lparr>c_cnt = (replicate 32767 65542)[0 := - 65525], N_tot = 2147483647,
            m_loo = 0, LOO = False,
            bootsam = replicate 131067 1 @ replicate 2147483647 0, rng = 131067\<rparr>"
    by (simp only: boot_prefix.simps sum.case dm)
  then show ?thesis by simp
qed

lemma wrapped_inv_turn:
  "wrapped_inv 32767 65542 131067 131067
       \<lparr>c_cnt = (replicate 32767 65542)[0 := - 65525], N_tot = 2147483647,
            m_loo = 0, LOO = False,
            bootsam = replicate 131067 1 @ replicate 2147483647 0, rng = 131067\<rparr>"
proof -
  have s: "sum_list ((replicate 32767 (65542::int))[0 := - 65525]) = 2147483647"
    by (simp add: sum_list_update_int sum_list_replicate)
  have e: "\<exists>rest. replicate 131067 (1::int) @ replicate 2147483647 0 = replicate 131067 1 @ rest \<and>
              1 \<notin> set rest \<and> length rest = 32767 * 65542 - 131067"
    by (intro exI[of _ "replicate 2147483647 0"]) simp
  show ?thesis
    unfolding wrapped_inv_def using s e
    by (simp add: INT_MIN_def nth_list_update)
qed

lemma wrapped_run_end:
  "\<exists>st. boot_prefix half_draws False 32767 65542 (32767 * 65542) = Inr st \<and>
        wrapped_inv 32767 65542 131067 (32767 * 65542) st"
proof -
  have a: "(131067::nat) \<le> 131067" by simp
  have b: "int (32767 * 65542) - int 131067 \<le> INT_MAX" "int 65542 \<le> INT_MAX"
    by (simp_all add: INT_MAX_def)
  have c: "131067 + 2147483647 \<le> (32767::nat) * 65542" by simp
  from wrapped_inv_run[OF wrapped_run_turn wrapped_inv_turn a b c]
  show ?thesis by simp
qed

lemma boot_case:
  assumes "boot [Num n, Num nboot, Bool u] draws =
           (case boot_prefix draws u (nat n) (nat nboot) T of
              Inl e \<Rightarrow> Inl e
            | Inr st \<Rightarrow> Inr \<lparr>rows = nat n, columns = nat nboot, elems = bootsam st\<rparr>)"
    and "T = t + d"
    and "boot_prefix draws u (nat n) (nat nboot) t = Inr st"
  shows "case boot [Num n, Num nboot, Bool u] draws of
           Inl e \<Rightarrow> e = OutOfBounds
         | Inr M \<Rightarrow> rows M = nat n \<and> columns M = nat nboot \<and>
                    take t (elems M) = take t (bootsam st)"
proof (cases "boot_prefix draws u (nat n) (nat nboot) T")
  case (Inl e)
  with boot_prefix_error_kind[OF Inl] assms(1) show ?thesis by simp
next
  case (Inr st')
  from boot_prefix_persist[OF Inr[unfolded assms(2)]] assms(3)
  have "take t (bootsam st') = take t (bootsam st)" by simp
  with Inr assms(1) show ?thesis by simp
qed

text \<open>
  Claim C1 does not hold of the code where the product \<open>n * nboot\<close> does not fit an \<open>int\<close>.
  For \<open>n = 32767\<close> and \<open>nboot = 65542\<close> the product 2147614714 wraps to
  \<open>N = -2147352582\<close>, which is not the total of the counters that the comment at the
  declaration of \<open>N\<close> announces. With every draw equal to one half, \<open>k\<close> is negative and index
  1 is selected in each of the first 131067 draws, until \<open>N\<close> has wrapped a second time; the
  run then goes on with \<open>c[0] = -65525\<close> and never selects index 1 again. The call returns a
  matrix of shape \<open>32767 x 65542\<close> whose first 65543 entries (column-major) are all 1 and in
  which 1 occurs 131067 times, not the \<open>nboot = 65542\<close> times of a balanced matrix. For
  comparison, \<open>boot (2, 2, false)\<close> returns a balanced matrix. The same overflow is behind the
  failures of claims C8 and C9.
\<close>

theorem boot_unbalanced:
  "(case boot [Num 32767, Num 65542, Bool False] half_draws of
      Inl e \<Rightarrow> False
    | Inr M \<Rightarrow> rows M = 32767 \<and> columns M = 65542 \<and> length (elems M) = 2147614714 \<and>
               take 65543 (elems M) = replicate 65543 1 \<and>
               count_list (elems M) 1 = 131067) \<and>
   N_tot (init_state 32767 65542) = - 2147352582 \<and>
   boot [Num 2, Num 2, Bool False] half_draws =
     Inr \<lparr>rows = 2, columns = 2, elems = [2, 1, 2, 1]\<rparr>"
proof (intro conjI)
  have r: "boot [Num 32767, Num 65542, Bool False] half_draws =
           (case boot_prefix half_draws False (nat 32767) (nat 65542) (nat 32767 * nat 65542) of
              Inl e \<Rightarrow> Inl e
            | Inr st \<Rightarrow> Inr \<lparr>rows = nat 32767, columns = nat 65542, elems = bootsam st\<rparr>)"
    by (rule boot_run) simp_all
  from wrapped_run_end obtain st rest
    where p: "boot_prefix half_draws False 32767 65542 (32767 * 65542) = Inr st"
      and bs: "bootsam st = replicate 131067 1 @ rest" and r1: "1 \<notin> set rest"
      and lr: "length rest = 32767 * 65542 - 131067"
    by (auto simp: wrapped_inv_def)
  have run: "boot [Num 32767, Num 65542, Bool False] half_draws =
          Inr \<lparr>rows = 32767, columns = 65542, elems = replicate 131067 1 @ rest\<rparr>"
    using r p bs by simp
  have cnt: "count_list (replicate 131067 1 @ rest) 1 = 131067"
    using r1 by (simp add: count_list_replicate_same)
  show "case boot [Num 32767, Num 65542, Bool False] half_draws of
      Inl e \<Rightarrow> False
    | Inr M \<Rightarrow> rows M = 32767 \<and> columns M = 65542 \<and> length (elems M) = 2147614714 \<and>
               take 65543 (elems M) = replicate 65543 1 \<and>
               count_list (elems M) 1 = 131067"
    using cnt lr by (simp add: run)
  show "N_tot (init_state 32767 65542) = - 2147352582"
    using wrapped_total by (simp add: init_state_def)
  show "boot [Num 2, Num 2, Bool False] half_draws =
     Inr \<lparr>rows = 2, columns = 2, elems = [2, 1, 2, 1]\<rparr>"
    by code_simp
qed

text \<open>
  Claim C9 does not hold of the code at the same input \<open>boot (32767, 65542, false)\<close>, by the
  overflow of \<open>int N = n * nboot\<close> that also breaks claims C1 and C8: in the first draw
  \<open>k = -1073676288\<close> is negative, and after 65543 draws the counter \<open>c[0]\<close> is \<open>-1\<close>. The
  two nested loops compute exactly this run. For comparison, in the run of \<open>boot (2, 2, false)\<close>
  the walk passes its second index and all counters end at 0.
\<close>

theorem walk_negative:
  "draw_k half_draws (init_state 32767 65542) = - 1073676288 \<and>
   boot_prefix half_draws False 32767 65542 65543 =
     Inr \<lparr>c_cnt = (replicate 32767 65542)[0 := - 1], N_tot = - 2147418125,
          m_loo = 0, LOO = False,
          bootsam = replicate 65543 1 @ replicate 2147549171 0, rng = 65543\<rparr> \<and>
   cols_loop half_draws False 32767 65542 0 (init_state 32767 65542) =
     boot_prefix half_draws False 32767 65542 (32767 * 65542) \<and>
   boot_prefix half_draws False 2 2 4 =
     Inr \<lparr>c_cnt = [0, 0], N_tot = 0, m_loo = 0, LOO = False, bootsam = [2, 1, 2, 1], rng = 4\<rparr>"
proof (intro conjI)
  have f1: "fl32 (- 2147352582) = - 2147352576"
    by (simp add: fl32_def round_bin_def ulp_exp_def ilog2_def blen.simps rhe_def Let_def)
  have f2: "fl32 (- 1073676288) = - 1073676288"
    by (simp add: fl32_def round_bin_def ulp_exp_def ilog2_def blen.simps rhe_def Let_def)
  show "draw_k half_draws (init_state 32767 65542) = - 1073676288"
    using wrapped_total
    by (simp add: draw_k_def init_state_def half_draws_def wrap32_id INT_MIN_def INT_MAX_def f1 f2
        int_of_float_def trunc_def)
  show "boot_prefix half_draws False 32767 65542 65543 =
     Inr \<lparr>c_cnt = (replicate 32767 65542)[0 := - 1], N_tot = - 2147418125,
          m_loo = 0, LOO = False,
          bootsam = replicate 65543 1 @ replicate 2147549171 0, rng = 65543\<rparr>"
    using wrapped_run[of 65543] by simp
  show "cols_loop half_draws False 32767 65542 0 (init_state 32767 65542) =
     boot_prefix half_draws False 32767 65542 (32767 * 65542)"
    by (rule cols_loop_run) simp
  show "boot_prefix half_draws False 2 2 4 =
     Inr \<lparr>c_cnt = [0, 0], N_tot = 0, m_loo = 0, LOO = False, bootsam = [2, 1, 2, 1], rng = 4\<rparr>"
    by code_simp
qed

lemma replicate_update_same: "(replicate n x)[i := x] = replicate n x"
  by (induction n arbitrary: i) (simp_all split: nat.splits)

lemma loo_first_draw:
  "boot_prefix half_draws True 32767 65542 1 =
     Inr \<lparr>c_cnt = replicate 32767 65542, N_tot = - 2147352583, m_loo = 0, LOO = False,
          bootsam = (replicate 2147614714 0)[0 := 1], rng = 1\<rparr>"
proof -
  have f1: "fl32 (- 2147418124) = - 2147418112"
    by (simp add: fl32_def round_bin_def ulp_exp_def ilog2_def blen.simps rhe_def Let_def)
  have f2: "fl32 (- 1073709056) = - 1073709056"
    by (simp add: fl32_def round_bin_def ulp_exp_def ilog2_def blen.simps rhe_def Let_def)
  have w: "wrap32 (- 2147418124) = - 2147418124" "wrap32 (- 2147352583) = - 2147352583"
    "wrap32 (- 1) = - 1"
    by (simp_all add: wrap32_id INT_MIN_def INT_MAX_def)
  show ?thesis
    using wrapped_total
    by (simp add: row_body_def Let_def loo_index_def loo_enter_def loo_leave_def draw_k_def
        init_state_def half_draws_def f1 f2 w int_of_float_def trunc_def INT_MIN_def INT_MAX_def
        walk.simps[of _ _ _ _ 0] replicate_update_same)
qed

text \<open>
  Claim C8 does not hold of the code at \<open>boot (32767, 65542, true)\<close>, by the overflow of
  \<open>int N = n * nboot\<close> that also breaks claims C1 and C9. In the first draw of column 0 the
  excluded index is \<open>r = 0\<close> and \<open>c[r] = 65542\<close> differs from \<open>N = -2147352582\<close>, so \<open>c[r]\<close> is
  set to 0 and the draw is scaled by \<open>N - m = -2147418124\<close>: \<open>k = -1073709056\<close> is below
  \<open>d = c[0] = 0\<close>, the walk breaks at \<open>j = 0\<close> and stores \<open>r + 1 = 1\<close>, the index that was to be
  excluded. The decrement of \<open>c[0]\<close> is then overwritten by the restored value 65542. For
  comparison, in \<open>boot (2, 1, true)\<close> the first draw skips the excluded index 1 and stores 2.
\<close>

theorem loo_selects_excluded:
  "loo_index True 32767 0 = 0 \<and>
   c_cnt (init_state 32767 65542) ! 0 = 65542 \<and>
   N_tot (init_state 32767 65542) = - 2147352582 \<and>
   draw_k half_draws (loo_enter True 0 (init_state 32767 65542)) = - 1073709056 \<and>
   boot_prefix half_draws True 32767 65542 1 =
     Inr \<lparr>c_cnt = replicate 32767 65542, N_tot = - 2147352583, m_loo = 0, LOO = False,
          bootsam = (replicate 2147614714 0)[0 := 1], rng = 1\<rparr> \<and>
   (case boot [Num 32767, Num 65542, Bool True] half_draws of
      Inl e \<Rightarrow> e = OutOfBounds
    | Inr M \<Rightarrow> rows M = 32767 \<and> columns M = 65542 \<and> take 1 (elems M) = [1]) \<and>
   boot [Num 2, Num 1, Bool True] half_draws = Inr \<lparr>rows = 2, columns = 1, elems = [2, 1]\<rparr>"
proof (intro conjI)
  show "loo_index True 32767 0 = 0" by (simp add: loo_index_def)
  show "c_cnt (init_state 32767 65542) ! 0 = 65542" by (simp add: init_state_def)
  show N: "N_tot (init_state 32767 65542) = - 2147352582"
    using wrapped_total by (simp add: init_state_def)
  have f1: "fl32 (- 2147418124) = - 2147418112"
    by (simp add: fl32_def round_bin_def ulp_exp_def ilog2_def blen.simps rhe_def Let_def)
  have f2: "fl32 (- 1073709056) = - 1073709056"
    by (simp add: fl32_def round_bin_def ulp_exp_def ilog2_def blen.simps rhe_def Let_def)
  have w: "wrap32 (- 2147418124) = - 2147418124"
    by (simp_all add: wrap32_id INT_MIN_def INT_MAX_def)
  show "draw_k half_draws (loo_enter True 0 (init_state 32767 65542)) = - 1073709056"
    using wrapped_total
    by (simp add: loo_enter_def draw_k_def init_state_def half_draws_def f1 f2 w
        int_of_float_def trunc_def INT_MIN_def INT_MAX_def)
  show "boot_prefix half_draws True 32767 65542 1 =
     Inr \<lparr>c_cnt = replicate 32767 65542, N_tot = - 2147352583, m_loo = 0, LOO = False,
          bootsam = (replicate 2147614714 0)[0 := 1], rng = 1\<rparr>"
    by (rule loo_first_draw)
  have r: "boot [Num 32767, Num 65542, Bool True] half_draws =
           (case boot_prefix half_draws True (nat 32767) (nat 65542) (nat 32767 * nat 65542) of
              Inl e \<Rightarrow> Inl e
            | Inr st \<Rightarrow> Inr \<lparr>rows = nat 32767, columns = nat 65542, elems = bootsam st\<rparr>)"
    by (rule boot_run) simp_all
  have s: "nat 32767 * nat 65542 = 1 + 2147614713" by simp
  have p: "boot_prefix half_draws True (nat 32767) (nat 65542) 1 =
     Inr \<lparr>c_cnt = replicate 32767 65542, N_tot = - 2147352583, m_loo = 0, LOO = False,
          bootsam = (replicate 2147614714 0)[0 := 1], rng = 1\<rparr>"
    using loo_first_draw by simp
  have t: "take 1 ((replicate 2147614714 (0::int))[0 := 1]) = [1]"
    by (simp add: take_Suc_conv_app_nth)
  from boot_case[OF r s p] t
  show "case boot [Num 32767, Num 65542, Bool True] half_draws of
      Inl e \<Rightarrow> e = OutOfBounds
    | Inr M \<Rightarrow> rows M = 32767 \<and> columns M = 65542 \<and> take 1 (elems M) = [1]"
    by (simp split: sum.splits)
  show "boot [Num 2, Num 1, Bool True] half_draws = Inr \<lparr>rows = 2, columns = 1, elems = [2, 1]\<rparr>"
    by code_simp
qed

text \<open>
  Within the range of \<open>int\<close>: for \<open>n\<close> in \<open>1..32767\<close> and \<open>nboot > 0\<close> with
  \<open>n * nboot \<le> INT_MAX\<close>, either value of the unbiased flag and every sequence of \<open>float\<close>
  draws in \<open>[0,1)\<close>, \<open>boot\<close> returns a matrix of shape \<open>n x nboot\<close> in which every \<open>v\<close> in
  \<open>1..n\<close> occurs exactly \<open>nboot\<close> times.
\<close>

lemma in_range_balanced:
  assumes n: "0 < n" "n \<le> 32767" and nb: "0 < nboot" and ov: "n * nboot \<le> INT_MAX"
    and dr: "\<forall>t. is_float32 (draws t) \<and> 0 \<le> draws t \<and> draws t < 1"
  shows "\<exists>M. boot [Num n, Num nboot, Bool u] draws = Inr M \<and>
             rows M = nat n \<and> columns M = nat nboot \<and>
             length (elems M) = nat n * nat nboot \<and>
             (\<forall>v\<in>{1..n}. int (count_list (elems M) v) = nboot) \<and>
             (\<forall>x\<in>set (elems M). 1 \<le> x \<and> x \<le> n)"
proof -
  from boot_result[OF n nb ov dr, of u]
  obtain st where run: "boot [Num n, Num nboot, Bool u] draws =
               Inr \<lparr>rows = nat n, columns = nat nboot, elems = bootsam st\<rparr>"
    and inv: "boot_inv (nat n) (nat nboot) (nat n * nat nboot) st"
    by blast
  note fin = boot_inv_final[OF inv]
  have cnt: "\<forall>v\<in>{1..n}. int (count_list (bootsam st) v) = nboot"
  proof
    fix v assume v: "v \<in> {1..n}"
    then have "nat (v - 1) < nat n" "int (nat (v - 1)) + 1 = v" by auto
    with fin(3) have "count_list (bootsam st) v = nat nboot" by metis
    then show "int (count_list (bootsam st) v) = nboot" using nb by simp
  qed
  have rng: "\<forall>x\<in>set (bootsam st). 1 \<le> x \<and> x \<le> n"
    using fin(2) n by auto
  show ?thesis
    using run fin(1) cnt rng by simp
qed

text \<open>
  Within the range of \<open>int\<close>, at every draw \<open>t\<close> the drawn \<open>k\<close> satisfies \<open>0 \<le> k\<close> and is
  below the sum of the active counters, the walk breaks at some \<open>j < n\<close>, the entry of the
  draw is assigned \<open>j + 1\<close>, the counters stay non-negative, and no entry of the returned
  matrix keeps its initial value 0.
\<close>

lemma in_range_walk_selects:
  assumes n: "0 < n" "n \<le> 32767" and nb: "0 < nboot" and ov: "n * nboot \<le> INT_MAX"
    and dr: "\<forall>t. is_float32 (draws t) \<and> 0 \<le> draws t \<and> draws t < 1"
    and t: "t < nat n * nat nboot"
  shows "\<exists>st st1 st2 st' k j.
           boot_prefix draws u (nat n) (nat nboot) t = Inr st \<and>
           st1 = loo_enter u (loo_index u (nat n) (t div nat n)) st \<and>
           k = draw_k draws st1 \<and> st2 = st1\<lparr>rng := rng st1 + 1\<rparr> \<and>
           0 \<le> k \<and> k < sum_list (c_cnt st1) \<and> j < nat n \<and>
           walk (nat n) k (t mod nat n) (t div nat n) 0 (c_cnt st2 ! 0) st2 =
             Inr (st2\<lparr>bootsam := (bootsam st2)[t mod nat n + t div nat n * nat n := int j + 1],
                     c_cnt := (c_cnt st2)[j := c_cnt st2 ! j - 1],
                     N_tot := N_tot st2 - 1\<rparr>) \<and>
           boot_prefix draws u (nat n) (nat nboot) (Suc t) = Inr st' \<and>
           bootsam st' ! t = int j + 1 \<and>
           (\<forall>x\<in>set (c_cnt st'). 0 \<le> x) \<and>
           (\<exists>M. boot [Num n, Num nboot, Bool u] draws = Inr M \<and> (\<forall>x\<in>set (elems M). x \<noteq> 0))"
proof -
  let ?n = "nat n" and ?nb = "nat nboot"
  let ?r = "loo_index u ?n (t div ?n)"
  have ov': "int (?n * ?nb) \<le> INT_MAX" using n nb ov by simp
  from boot_prefix_inv[OF dr _ ov', of t u] t
  obtain st where st: "boot_prefix draws u ?n ?nb t = Inr st" and inv: "boot_inv ?n ?nb t st"
    by auto
  from boot_prefix_inv[OF dr _ ov', of "Suc t" u] t
  obtain st' where st': "boot_prefix draws u ?n ?nb (Suc t) = Inr st'"
    and inv': "boot_inv ?n ?nb (Suc t) st'"
    by auto
  define st1 where "st1 = loo_enter u ?r st"
  define k where "k = draw_k draws st1"
  define st2 where "st2 = st1\<lparr>rng := rng st1 + 1\<rparr>"
  from inv have len: "length (c_cnt st) = ?n" and nonneg: "\<forall>j<?n. 0 \<le> c_cnt st ! j"
    and total: "sum_list (c_cnt st) = N_tot st" and m0: "m_loo st = 0" and l0: "\<not> LOO st"
    and rt: "rng st = t" and lb: "length (bootsam st) = ?n * ?nb"
    by (simp_all add: boot_inv_def)
  have "int t < int (?n * ?nb)" using t by (simp only: of_nat_less_iff)
  then have pos: "0 < N_tot st" using inv by (simp add: boot_inv_def)
  have n0: "0 < ?n" using n by simp
  have r: "u \<longrightarrow> ?r < ?n"
    using n0 by (simp add: loo_index_def minus_div_mult_eq_mod)
  have top: "N_tot st \<le> INT_MAX" using inv ov' by (simp add: boot_inv_def)
  have dr': "is_float32 (draws (rng st))" "0 \<le> draws (rng st)" "draws (rng st) < 1"
    using dr by simp_all
  from row_walk[OF len nonneg total pos top m0 r dr' st1_def k_def st2_def,
      of "t mod ?n" "t div ?n"]
  obtain j where k: "0 \<le> k" "k < sum_list (c_cnt st1)" and j: "j < ?n"
    and w: "walk ?n k (t mod ?n) (t div ?n) 0 (c_cnt st2 ! 0) st2 =
              Inr (st2\<lparr>bootsam := (bootsam st2)[t mod ?n + t div ?n * ?n := int j + 1],
                      c_cnt := (c_cnt st2)[j := c_cnt st2 ! j - 1],
                      N_tot := N_tot st2 - 1\<rparr>)"
    by blast
  have rb: "row_body draws u ?n ?r (t div ?n) (t mod ?n) st =
      (case walk ?n k (t mod ?n) (t div ?n) 0 (c_cnt st2 ! 0) st2 of
         Inl e \<Rightarrow> Inl e | Inr st3 \<Rightarrow> Inr (loo_leave ?r st3))"
    by (simp only: row_body_def Let_def st1_def k_def st2_def)
  have "row_body draws u ?n ?r (t div ?n) (t mod ?n) st = Inr st'"
    using st st' by simp
  then have "st' = loo_leave ?r (st2\<lparr>bootsam := (bootsam st2)[t mod ?n + t div ?n * ?n := int j + 1],
                      c_cnt := (c_cnt st2)[j := c_cnt st2 ! j - 1],
                      N_tot := N_tot st2 - 1\<rparr>)"
    unfolding rb w by simp
  then have "bootsam st' = (bootsam st)[t := int j + 1]"
    by (simp add: loo_leave_def st2_def st1_def loo_enter_def)
  then have bj: "bootsam st' ! t = int j + 1" using lb t by simp
  have cn: "\<forall>x\<in>set (c_cnt st'). 0 \<le> x"
    using inv' by (auto simp: boot_inv_def set_conv_nth)
  from boot_result[OF n nb ov dr, of u]
  obtain fs where run: "boot [Num n, Num nboot, Bool u] draws =
               Inr \<lparr>rows = nat n, columns = nat nboot, elems = bootsam fs\<rparr>"
    and finv: "boot_inv (nat n) (nat nboot) (nat n * nat nboot) fs"
    by blast
  from boot_inv_final(2)[OF finv] have "\<forall>x\<in>set (bootsam fs). x \<noteq> 0" by auto
  with run
  have "\<exists>M. boot [Num n, Num nboot, Bool u] draws = Inr M \<and> (\<forall>x\<in>set (elems M). x \<noteq> 0)"
    by simp
  with st st' k j w bj cn show ?thesis
    unfolding st1_def k_def st2_def by blast
qed

text \<open>
  Within the range of \<open>int\<close>, in unbiased mode, at every draw \<open>t\<close> of the run (row
  \<open>i = t mod n\<close> of column \<open>b = t div n\<close>, with \<open>r = b mod n\<close>): if \<open>c[r] \<noteq> N\<close> before the
  draw, then \<open>c[r]\<close> is set to 0 with its value saved in \<open>m\<close>, the drawn \<open>k\<close> lies in
  \<open>[0, N - c[r])\<close>, the index stored in the matrix is not \<open>r + 1\<close>, and after the draw
  \<open>c[r]\<close> has its saved value again, \<open>m = 0\<close> and the flag is cleared.
\<close>

lemma in_range_loo_exclusion:
  assumes n: "0 < n" and ov: "int (n * nboot) \<le> INT_MAX"
    and dr: "\<forall>t. is_float32 (draws t) \<and> 0 \<le> draws t \<and> draws t < 1"
    and t: "t < n * nboot"
    and b: "b = t div n" and i: "i = t mod n" and r: "r = b mod n"
  shows "cols_loop draws True n nboot 0 (init_state n nboot)
           = boot_prefix draws True n nboot (n * nboot) \<and>
         loo_index True n b = r \<and>
         (\<exists>st st'.
            boot_prefix draws True n nboot t = Inr st \<and>
            row_body draws True n r b i st = Inr st' \<and>
            boot_prefix draws True n nboot (Suc t) = Inr st' \<and>
            (c_cnt st ! r \<noteq> N_tot st \<longrightarrow>
               loo_enter True r st = st\<lparr>m_loo := c_cnt st ! r, c_cnt := (c_cnt st)[r := 0], LOO := True\<rparr> \<and>
               c_cnt (loo_enter True r st) ! r = 0 \<and>
               draw_k draws (loo_enter True r st)
                 = int_of_float (fl32 (draws t * fl32 (real_of_int (N_tot st - c_cnt st ! r)))) \<and>
               0 \<le> draw_k draws (loo_enter True r st) \<and>
               draw_k draws (loo_enter True r st) < N_tot st - c_cnt st ! r \<and>
               bootsam st' ! (i + b * n) \<noteq> int r + 1 \<and>
               c_cnt st' ! r = c_cnt st ! r \<and> m_loo st' = 0 \<and> \<not> LOO st'))"
proof -
  have ri: "loo_index True n b = r"
    by (simp add: loo_index_def r minus_div_mult_eq_mod)
  have rn: "r < n" using n r by simp
  from boot_prefix_inv[OF dr _ ov, of t True] t
  obtain st where st: "boot_prefix draws True n nboot t = Inr st" and inv: "boot_inv n nboot t st"
    by auto
  from inv have len: "length (c_cnt st) = n" and nonneg: "\<forall>j<n. 0 \<le> c_cnt st ! j"
    and total: "sum_list (c_cnt st) = N_tot st" and m0: "m_loo st = 0" and l0: "\<not> LOO st"
    and rt: "rng st = t" and lb: "length (bootsam st) = n * nboot"
    by (simp_all add: boot_inv_def)
  have "int t < int (n * nboot)" using t by (simp only: of_nat_less_iff)
  then have pos: "0 < N_tot st" using inv by (simp add: boot_inv_def)
  have top: "N_tot st \<le> INT_MAX" using inv ov by (simp add: boot_inv_def)
  have dr': "is_float32 (draws (rng st))" "0 \<le> draws (rng st)" "draws (rng st) < 1"
    using dr by simp_all
  have ru: "True \<longrightarrow> r < n" using rn by simp
  from row_body_step[where st=st and n=n and u=True and r=r and draws=draws and b=b and i=i,
      OF len nonneg total pos top m0 l0 ru dr']
  obtain j where j: "j < n" "c_cnt st ! r \<noteq> N_tot st \<longrightarrow> j \<noteq> r"
    and rb: "row_body draws True n r b i st =
             Inr (st\<lparr>bootsam := (bootsam st)[i + b * n := int j + 1],
                     c_cnt := (c_cnt st)[j := c_cnt st ! j - 1],
                     N_tot := N_tot st - 1,
                     rng := rng st + 1\<rparr>)"
    by auto
  define st' where "st' = st\<lparr>bootsam := (bootsam st)[i + b * n := int j + 1],
                     c_cnt := (c_cnt st)[j := c_cnt st ! j - 1],
                     N_tot := N_tot st - 1,
                     rng := rng st + 1\<rparr>"
  have rb': "row_body draws True n r b i st = Inr st'" using rb by (simp add: st'_def)
  have nx: "boot_prefix draws True n nboot (Suc t) = Inr st'"
    using st rb' ri by (simp add: b i)
  have ibn: "i + b * n = t" by (simp add: b i)
  have "c_cnt st ! r \<noteq> N_tot st \<longrightarrow>
               loo_enter True r st = st\<lparr>m_loo := c_cnt st ! r, c_cnt := (c_cnt st)[r := 0], LOO := True\<rparr> \<and>
               c_cnt (loo_enter True r st) ! r = 0 \<and>
               draw_k draws (loo_enter True r st)
                 = int_of_float (fl32 (draws t * fl32 (real_of_int (N_tot st - c_cnt st ! r)))) \<and>
               0 \<le> draw_k draws (loo_enter True r st) \<and>
               draw_k draws (loo_enter True r st) < N_tot st - c_cnt st ! r \<and>
               bootsam st' ! (i + b * n) \<noteq> int r + 1 \<and>
               c_cnt st' ! r = c_cnt st ! r \<and> m_loo st' = 0 \<and> \<not> LOO st'"
  proof
    assume ne: "c_cnt st ! r \<noteq> N_tot st"
    have le: "loo_enter True r st = st\<lparr>m_loo := c_cnt st ! r, c_cnt := (c_cnt st)[r := 0], LOO := True\<rparr>"
      using ne by (simp add: loo_enter_def)
    have z: "c_cnt (loo_enter True r st) ! r = 0" using rn len by (simp add: le)
    have X: "0 < N_tot st - c_cnt st ! r"
      using loo_enter_inv(4)[OF len nonneg total pos m0 ru] by (simp add: le)
    have "0 \<le> c_cnt st ! r" using nonneg rn by blast
    with top have Xt: "N_tot st - c_cnt st ! r \<le> INT_MAX" by linarith
    have "wrap32 (N_tot st - c_cnt st ! r) = N_tot st - c_cnt st ! r"
      using X Xt by (intro wrap32_id) (simp_all add: INT_MIN_def)
    then have dk: "draw_k draws (loo_enter True r st)
                 = int_of_float (fl32 (draws t * fl32 (real_of_int (N_tot st - c_cnt st ! r))))"
      by (simp add: le draw_k_def rt)
    have kr: "0 \<le> draw_k draws (loo_enter True r st)"
         "draw_k draws (loo_enter True r st) < N_tot st - c_cnt st ! r"
      using draw_range[OF X Xt, of "draws t"] dr unfolding dk by simp_all
    from ne j have jr: "j \<noteq> r" by simp
    have b1: "bootsam st' ! (i + b * n) \<noteq> int r + 1"
      using jr lb t by (simp add: st'_def ibn)
    have b2: "c_cnt st' ! r = c_cnt st ! r" using jr by (simp add: st'_def)
    have b3: "m_loo st' = 0" "\<not> LOO st'" using m0 l0 by (simp_all add: st'_def)
    from le z dk kr b1 b2 b3
    show "loo_enter True r st = st\<lparr>m_loo := c_cnt st ! r, c_cnt := (c_cnt st)[r := 0], LOO := True\<rparr> \<and>
               c_cnt (loo_enter True r st) ! r = 0 \<and>
               draw_k draws (loo_enter True r st)
                 = int_of_float (fl32 (draws t * fl32 (real_of_int (N_tot st - c_cnt st ! r)))) \<and>
               0 \<le> draw_k draws (loo_enter True r st) \<and>
               draw_k draws (loo_enter True r st) < N_tot st - c_cnt st ! r \<and>
               bootsam st' ! (i + b * n) \<noteq> int r + 1 \<and>
               c_cnt st' ! r = c_cnt st ! r \<and> m_loo st' = 0 \<and> \<not> LOO st'"
      by (intro conjI)
  qed
  with ri st rb' nx cols_loop_run[OF n, of draws True nboot] show ?thesis by blast
qed

section \<open>Properties of the smoothed median\<close>

lemma fl64_zero [simp]: "fl64 0 = 0"
  by (simp add: fl64_def round_bin_def)

lemma DBL_MAX_pos: "0 < DBL_MAX"
  by (simp add: DBL_MAX_def)

lemma rnd_zero [simp]: "rnd 0 = Fin 0"
  using DBL_MAX_pos by (simp add: rnd_def)

text \<open>A value that is a \<open>double\<close> is not changed by rounding.\<close>

lemma rnd_exact: "fl64 x = x \<Longrightarrow> \<bar>x\<bar> \<le> DBL_MAX \<Longrightarrow> rnd x = Fin x"
  by (auto simp add: rnd_def)

lemma fl64_of_int:
  assumes "\<bar>k\<bar> < 2 ^ 53"
  shows "fl64 (real_of_int k) = real_of_int k"
proof (cases "k = 0")
  case True
  then show ?thesis by simp
next
  case False
  have "\<bar>real_of_int k\<bar> < 2 ^ 53"
    using assms by (metis of_int_abs of_int_less_iff of_int_numeral of_int_power)
  then have "\<bar>real_of_int k\<bar> < 2 powi (0 + int 53)" by simp
  then have u: "ulp_exp 53 (- 1074) (real_of_int k) \<le> 0"
    using False by (intro ulp_exp_abs_le) simp_all
  have "real_of_int k = of_int k * 2 powi 0" by simp
  from round_bin_grid[OF u this] show ?thesis by (simp add: fl64_def)
qed

lemma fl32_half [simp]: "fl32 (1 / 2) = 1 / 2"
  by (simp add: fl32_def round_bin_def ulp_exp_def ilog2_def blen.simps rhe_def Let_def)

lemma fl32_one [simp]: "fl32 1 = 1"
  by (simp add: fl32_def round_bin_def ulp_exp_def ilog2_def blen.simps rhe_def Let_def)

lemma fl32_zero [simp]: "fl32 0 = 0"
  by (simp add: fl32_def round_bin_def)

lemma one_e_minus_4_value: "one_e_minus_4 = 7378697629483821 / 73786976294838206464"
  by (simp add: one_e_minus_4_def fl64_def round_bin_def ulp_exp_def ilog2_def blen.simps rhe_def
      Let_def)

lemma one_e_minus_4_pos: "0 < one_e_minus_4"
  by (simp add: one_e_minus_4_value)

lemma median_start_single: "median_start [v] = Inr v"
  by (simp add: median_start_def int_of_float_def trunc_def INT_MIN_def INT_MAX_def)

lemma median_start_pair: "median_start [v, w] = Inr (dmul (dadd w v) (Fin (1 / 2)))"
  by (simp add: median_start_def int_of_float_def trunc_def INT_MIN_def INT_MAX_def)

lemma solve_vector_eq:
  "solve_vector TolArg xs =
     (case std_sort xs of
        Inl e \<Rightarrow> Inl e
      | Inr xvec \<Rightarrow>
          (case median_start xvec of
             Inl e \<Rightarrow> Inl e
           | Inr M0 \<Rightarrow> newton_loop xvec (start_Tol TolArg xvec) (start_state xvec M0)))"
  by (simp add: solve_vector_def start_Tol_def start_state_def Let_def split: sum.splits option.splits)

lemma newton_loop_break:
  "Iter st \<le> MaxIter \<Longrightarrow> newton_step xvec Tol st = Break \<Longrightarrow> newton_loop xvec Tol st = Inr st"
  by (simp add: newton_loop.simps)

lemma solve_single:
  "solve_vector None [Fin v] =
     Inr \<lparr>a_bnd = Fin v, b_bnd = Fin v, range_ab = Fin 0, M_k = Fin v, Iter = 0, warned = False\<rparr>"
proof -
  have st: "start_state [Fin v] (Fin v) =
      \<lparr>a_bnd = Fin v, b_bnd = Fin v, range_ab = Fin 0, M_k = Fin v, Iter = 0, warned = False\<rparr>"
    by (simp add: start_state_def dsub_def)
  have tol: "start_Tol None [Fin v] = Fin 0"
    by (simp add: start_Tol_def dsub_def)
  have "newton_step [Fin v] (Fin 0) (start_state [Fin v] (Fin v)) = Break"
    by (simp add: st newton_step_def dle_def)
  then have "newton_loop [Fin v] (Fin 0) (start_state [Fin v] (Fin v)) = Inr (start_state [Fin v] (Fin v))"
    by (intro newton_loop_break) (simp_all add: st)
  then show ?thesis
    by (simp add: solve_vector_eq std_sort_def dsort_def median_start_single tol st)
qed

lemma vectors_loop_done: "vectors_loop x dim' m n TolArg n out = Inr out"
  by (simp add: vectors_loop.simps)

text \<open>
  Claim C6. On the single-element input \<open>[5]\<close> with no tolerance supplied the result is \<open>5\<close>:
  the range and the default tolerance are both 0, so the first test \<open>range <= Tol\<close> of the
  first iteration breaks (\<open>Iter\<close> is still 0) before any derivative is computed.
\<close>

theorem single_element:
  "mexFunction [scalar (Fin 5)] = Inr (scalar (Fin 5), []) \<and>
   solve_vector None [Fin 5] =
     Inr \<lparr>a_bnd = Fin 5, b_bnd = Fin 5, range_ab = Fin 0, M_k = Fin 5, Iter = 0, warned = False\<rparr> \<and>
   start_Tol None [Fin 5] = Fin 0 \<and>
   dle (range_ab (start_state [Fin 5] (Fin 5))) (start_Tol None [Fin 5]) \<and>
   newton_step [Fin 5] (start_Tol None [Fin 5]) (start_state [Fin 5] (Fin 5)) = Break"
proof -
  have cv: "copy_vector (scalar (Fin 5)) 2 (Suc 0) (Suc 0) 0 = Inr [Fin 5]"
    by (simp add: copy_vector_def scalar_def list_all_iff Let_def)
  have vl: "vectors_loop (scalar (Fin 5)) 2 1 1 None 0 ([], []) = Inr ([Fin 5], [])"
    by (simp add: vectors_loop.simps[of _ _ _ _ _ 0] cv solve_single vectors_loop_done[of _ _ _ "Suc 0"])
  have m: "mexFunction [scalar (Fin 5)] = Inr (scalar (Fin 5), [])"
    using vl by (simp add: mexFunction_def read_dim_def read_Tol_def smooth_all_def scalar_def)
  have tol: "start_Tol None [Fin 5] = Fin 0"
    by (simp add: start_Tol_def dsub_def)
  have st: "range_ab (start_state [Fin 5] (Fin 5)) = Fin 0"
    by (simp add: start_state_def dsub_def)
  have br: "newton_step [Fin 5] (start_Tol None [Fin 5]) (start_state [Fin 5] (Fin 5)) = Break"
    by (simp add: newton_step_def tol st dle_def)
  show ?thesis using m tol st br by (simp add: solve_single dle_def)
qed

lemma smooth_all_singleton:
  assumes "sz0 x = 1" "d = 1 \<or> d = 2"
  shows "smooth_all x d TolArg =
           (case vectors_loop x 2 (sz1 x) 1 TolArg 0 ([], []) of
              Inl e \<Rightarrow> Inl e
            | Inr out \<Rightarrow> Inr (\<lparr>sz0 = 1, sz1 = 1, pr = fst out\<rparr>, snd out))"
  using assms by (auto simp add: smooth_all_def split: sum.splits)

lemma short_of_double_in_range:
  assumes "- 32769 < r" "r < 32768"
  shows "short_of_double (Fin r) = trunc r"
proof -
  have i: "int_of_float r = trunc r"
    using assms by (simp add: int_of_float_def INT_MIN_def INT_MAX_def)
  have "- 32768 \<le> trunc r \<and> trunc r \<le> 32767"
  proof (cases "0 \<le> r")
    case True
    then have "trunc r = \<lfloor>r\<rfloor>" by (simp add: trunc_def)
    moreover have "\<lfloor>r\<rfloor> < 32768" using assms(2) by (simp add: floor_less_iff)
    moreover have "0 \<le> \<lfloor>r\<rfloor>" using True by simp
    ultimately show ?thesis by simp
  next
    case False
    then have "trunc r = \<lceil>r\<rceil>" by (simp add: trunc_def)
    moreover have "- 32769 < \<lceil>r\<rceil>" using assms(1) by (simp add: less_ceiling_iff)
    moreover have "\<lceil>r\<rceil> \<le> 0" using False by (simp add: ceiling_le_iff)
    ultimately show ?thesis by simp
  qed
  then have "short_of_int (trunc r) = trunc r"
    by (simp add: short_of_int_def sint_sbintrunc' signed_take_bit_int_eq_self)
  with i show ?thesis by (simp add: short_of_double_def)
qed

lemma read_dim_two: "read_dim (x # scalar (Fin 2) # rest) = Inr 2"
  by (simp add: read_dim_def first_elem_def scalar_def short_of_double_in_range trunc_def)

lemma read_Tol_tl: "read_Tol (x # y # tl args) = read_Tol (x # args)"
  by (cases args) (simp_all add: read_Tol_def)

text \<open>
  Claim C7. When the leading dimension of \<open>x\<close> is 1, a call whose \<open>dim\<close> passes the check
  (1 or 2, or no \<open>dim\<close> argument) gives the result of the call with \<open>dim = 2\<close>: the single row
  of length \<open>sz[1]\<close> is processed and a \<open>1 x 1\<close> result is returned.
\<close>

theorem singleton_leading_dim:
  assumes "sz0 x = 1" and "read_dim (x # args) = Inr d" and "d = 1 \<or> d = 2"
  shows "mexFunction (x # args) = mexFunction (x # scalar (Fin 2) # tl args) \<and>
         (\<forall>TolArg. smooth_all x d TolArg =
            (case vectors_loop x 2 (sz1 x) 1 TolArg 0 ([], []) of
               Inl e \<Rightarrow> Inl e
             | Inr out \<Rightarrow> Inr (\<lparr>sz0 = 1, sz1 = 1, pr = fst out\<rparr>, snd out)))"
proof
  have "smooth_all x d T = smooth_all x 2 T" for T
    using smooth_all_singleton[OF assms(1,3)] smooth_all_singleton[OF assms(1), of 2] by simp
  then show "mexFunction (x # args) = mexFunction (x # scalar (Fin 2) # tl args)"
    using assms(2,3)
    by (auto simp: mexFunction_def read_dim_two read_Tol_tl split: sum.splits)
  show "\<forall>TolArg. smooth_all x d TolArg =
            (case vectors_loop x 2 (sz1 x) 1 TolArg 0 ([], []) of
               Inl e \<Rightarrow> Inl e
             | Inr out \<Rightarrow> Inr (\<lparr>sz0 = 1, sz1 = 1, pr = fst out\<rparr>, snd out))"
    using smooth_all_singleton[OF assms(1,3)] by simp
qed

theorem singleton_leading_dim_witness:
  "mexFunction [row_vector [Fin 1, Fin 2], scalar (Fin 1)]
     = mexFunction [row_vector [Fin 1, Fin 2], scalar (Fin 2)]"
proof -
  have a: "sz0 (row_vector [Fin 1, Fin 2]) = 1" by (simp add: row_vector_def)
  have b: "read_dim [row_vector [Fin 1, Fin 2], scalar (Fin 1)] = Inr 1"
    by (simp add: read_dim_def first_elem_def scalar_def short_of_double_in_range trunc_def)
  have c: "(1::int) = 1 \<or> (1::int) = 2" by simp
  from singleton_leading_dim[OF a b c] show ?thesis by simp
qed

lemma derivatives_nonfinite:
  "j \<le> p \<Longrightarrow> p < length xvec \<Longrightarrow> \<not> mxIsFinite (xvec ! p) \<Longrightarrow>
     derivatives xvec Mk j TU = Inl NumericError"
proof (induction xvec Mk j TU rule: derivatives.induct)
  case (1 xvec Mk j TU)
  show ?case
  proof (cases "mxIsFinite (xvec ! j)")
    case True
    with "1.prems" have "j \<noteq> p" by auto
    with "1.prems" True "1.IH" show ?thesis
      by (subst derivatives.simps) auto
  next
    case False
    with "1.prems" show ?thesis by (subst derivatives.simps) auto
  qed
qed

lemma copy_row_vector: "copy_vector (row_vector xs) 2 (length xs) (Suc 0) 0 = Inr xs"
  by (simp add: copy_vector_def row_vector_def map_nth list_all_iff Let_def)

lemma smooth_all_row_vector:
  "smooth_all (row_vector xs) d TolArg =
     (case solve_vector TolArg xs of
        Inl e \<Rightarrow> Inl e
      | Inr st \<Rightarrow> Inr (scalar (M_k st), if warned st then [1] else []))"
proof -
  have sz: "sz0 (row_vector xs) = 1" "sz1 (row_vector xs) = length xs"
    by (simp_all add: row_vector_def)
  have "vectors_loop (row_vector xs) 2 (length xs) (Suc 0) TolArg 0 ([], []) =
          (case solve_vector TolArg xs of
             Inl e \<Rightarrow> Inl e
           | Inr st \<Rightarrow> Inr ([M_k st], if warned st then [1] else []))"
    by (subst vectors_loop.simps)
       (simp add: copy_row_vector vectors_loop_done[of _ _ _ "Suc 0"] split: sum.splits)
  then show ?thesis
    by (simp add: smooth_all_def sz scalar_def split: sum.splits)
qed

lemma mexFunction_row_vector:
  "mexFunction [row_vector xs] =
     (case solve_vector None xs of
        Inl e \<Rightarrow> Inl e
      | Inr st \<Rightarrow> Inr (scalar (M_k st), if warned st then [1] else []))"
  by (simp add: mexFunction_def read_dim_def read_Tol_def smooth_all_row_vector)

text \<open>
  Claim C3 does not hold of the code: for the row vector \<open>[1, Inf]\<close> the range and the default
  tolerance are both infinite, the first test \<open>range <= Tol\<close> breaks, and the finiteness check
  in the derivative loop is never reached; the call returns \<open>Inf\<close> without an error.
\<close>

theorem infinite_value_accepted:
  "mexFunction [row_vector [Fin 1, PInf]] = Inr (scalar PInf, [])"
proof -
  have so: "std_sort [Fin 1, PInf] = Inr [Fin 1, PInf]" by (simp add: std_sort_def dsort_def)
  have md: "median_start [Fin 1, PInf] = Inr PInf"
    by (simp add: median_start_pair inf_of_sign_def)
  have st: "start_state [Fin 1, PInf] PInf =
      \<lparr>a_bnd = Fin 1, b_bnd = PInf, range_ab = PInf, M_k = PInf, Iter = 0, warned = False\<rparr>"
    by (simp add: start_state_def dsub_def)
  have tol: "start_Tol None [Fin 1, PInf] = PInf"
    using one_e_minus_4_pos by (simp add: start_Tol_def dsub_def inf_of_sign_def)
  have "newton_step [Fin 1, PInf] PInf (start_state [Fin 1, PInf] PInf) = Break"
    by (simp add: st newton_step_def dle_def)
  then have "newton_loop [Fin 1, PInf] PInf (start_state [Fin 1, PInf] PInf)
               = Inr (start_state [Fin 1, PInf] PInf)"
    by (intro newton_loop_break) (simp_all add: st)
  then have sv: "solve_vector None [Fin 1, PInf] = Inr (start_state [Fin 1, PInf] PInf)"
    by (simp add: solve_vector_eq so md tol)
  show ?thesis
    by (simp add: mexFunction_row_vector sv st)
qed

text \<open>A single NaN is found by the check in the derivative loop.\<close>

lemma single_NaN_rejected: "mexFunction [scalar NaN] = Inl NumericError"
proof -
  have so: "std_sort [NaN] = Inr [NaN]" by (simp add: std_sort_def)
  have st: "start_state [NaN] NaN =
      \<lparr>a_bnd = NaN, b_bnd = NaN, range_ab = NaN, M_k = NaN, Iter = 0, warned = False\<rparr>"
    by (simp add: start_state_def dsub_def)
  have tol: "start_Tol None [NaN] = NaN" by (simp add: start_Tol_def dsub_def)
  have "derivatives [NaN] NaN 0 (Fin 0, Fin 0) = Inl NumericError"
    by (simp add: derivatives.simps)
  then have "newton_step [NaN] NaN (start_state [NaN] NaN) = Raise NumericError"
    by (simp add: st newton_step_def dle_def)
  moreover have "Iter (start_state [NaN] NaN) \<le> MaxIter" by (simp add: st)
  ultimately have "newton_loop [NaN] NaN (start_state [NaN] NaN) = Inl NumericError"
    by (subst newton_loop.simps) simp
  then have sv: "solve_vector None [NaN] = Inl NumericError"
    by (simp add: solve_vector_eq so median_start_single tol)
  have "scalar NaN = row_vector [NaN]" by (simp add: scalar_def row_vector_def)
  then show ?thesis by (simp add: mexFunction_row_vector sv)
qed

lemma newton_step_Iter:
  "newton_step xvec Tol st = Continue st' \<Longrightarrow> Iter st' = Iter st \<and> warned st' = warned st"
  by (auto simp: newton_step_def Let_def split: if_splits sum.splits)

lemma newton_loop_Continue:
  "Iter st \<le> MaxIter \<Longrightarrow> newton_step xvec Tol st = Continue st' \<Longrightarrow>
     newton_loop xvec Tol st =
       newton_loop xvec Tol (st'\<lparr>warned := (warned st' \<or> Iter st' = MaxIter), Iter := Iter st' + 1\<rparr>)"
  by (subst newton_loop.simps) simp

lemma newton_loop_exhausted:
  "MaxIter < Iter st \<Longrightarrow> newton_loop xvec Tol st = Inr st"
  by (subst newton_loop.simps) simp

lemma newton_reach_loop:
  "newton_reach xvec Tol st0 st \<Longrightarrow> newton_loop xvec Tol st = newton_loop xvec Tol st0"
  by (induction rule: newton_reach.induct) (simp_all add: newton_loop_Continue)

lemma newton_reach_Iter:
  assumes "newton_reach xvec Tol st0 st" "Iter st0 \<le> MaxIter + 1"
  shows "Iter st0 \<le> Iter st \<and> Iter st \<le> MaxIter + 1 \<and>
         (warned st \<longleftrightarrow> warned st0 \<or> (Iter st0 < Iter st \<and> Iter st = MaxIter + 1))"
  using assms
proof (induction rule: newton_reach.induct)
  case start
  then show ?case by simp
next
  case (iterate st st')
  from newton_step_Iter[OF iterate.hyps(3)] iterate.hyps(2) iterate.IH[OF iterate.prems]
  show ?case by auto
qed

lemma newton_loop_reach:
  "newton_reach xvec Tol st0 st1 \<Longrightarrow> newton_loop xvec Tol st1 = Inr st \<Longrightarrow>
     newton_reach xvec Tol st0 st \<and>
     (MaxIter < Iter st \<or> newton_step xvec Tol st = Break)"
proof (induction xvec Tol st1 rule: newton_loop.induct)
  case (1 xvec Tol st1)
  show ?case
  proof (cases "Iter st1 \<le> MaxIter")
    case False
    with "1.prems" show ?thesis by (simp add: newton_loop_exhausted)
  next
    case True
    show ?thesis
    proof (cases "newton_step xvec Tol st1")
      case Break
      with True "1.prems" show ?thesis by (simp add: newton_loop_break)
    next
      case (Raise e)
      with True "1.prems" show ?thesis by (simp add: newton_loop.simps[of _ _ st1])
    next
      case (Continue st')
      let ?n = "st'\<lparr>warned := (warned st' \<or> Iter st' = MaxIter), Iter := Iter st' + 1\<rparr>"
      have r: "newton_reach xvec Tol st0 ?n"
        using "1.prems"(1) True Continue by (rule newton_reach.iterate)
      have l: "newton_loop xvec Tol ?n = Inr st"
        using "1.prems"(2) newton_loop_Continue[OF True Continue] by simp
      from "1.IH"[OF True Continue r l] show ?thesis .
    qed
  qed
qed

lemma newton_step_indep:
  "newton_step xvec Tol (st\<lparr>Iter := i, warned := w\<rparr>) =
     (case newton_step xvec Tol st of
        Continue s \<Rightarrow> Continue (s\<lparr>Iter := i, warned := w\<rparr>)
      | Break \<Rightarrow> Break
      | Raise e \<Rightarrow> Raise e)"
  by (simp add: newton_step_def Let_def split: sum.splits)

lemma newton_state_upd_swap:
  "st\<lparr>warned := w, Iter := i\<rparr> = st\<lparr>Iter := i, warned := w\<rparr>"
  by (cases st) simp

lemma newton_reach_stuck:
  assumes "newton_step xvec Tol st = Continue st"
  shows "i \<le> MaxIter + 1 \<Longrightarrow>
     newton_reach xvec Tol (st\<lparr>Iter := 0, warned := False\<rparr>)
       (st\<lparr>Iter := i, warned := (i = MaxIter + 1)\<rparr>)"
proof (induction i)
  case 0
  have "newton_reach xvec Tol (st\<lparr>Iter := 0, warned := False\<rparr>) (st\<lparr>Iter := 0, warned := False\<rparr>)"
    by (rule newton_reach.start)
  then show ?case by (simp add: MaxIter_def)
next
  case (Suc i)
  then have i: "i \<le> MaxIter" by simp
  let ?s = "st\<lparr>Iter := i, warned := False\<rparr>"
  have r: "newton_reach xvec Tol (st\<lparr>Iter := 0, warned := False\<rparr>) ?s"
    using Suc.IH i by simp
  have s: "newton_step xvec Tol ?s = Continue ?s"
    by (simp add: newton_step_indep assms)
  have "newton_reach xvec Tol (st\<lparr>Iter := 0, warned := False\<rparr>)
          (?s\<lparr>warned := (warned ?s \<or> Iter ?s = MaxIter), Iter := Iter ?s + 1\<rparr>)"
    using r _ s by (rule newton_reach.iterate) (simp add: i)
  then show ?case by (simp add: newton_state_upd_swap)
qed

lemma derivatives_single: "derivatives [Fin v] Mk 0 TU = Inr TU"
  by (simp add: derivatives.simps)

lemma fl64_five: "fl64 5 = 5" and fl64_ten: "fl64 10 = 10"
  using fl64_of_int[of 5] fl64_of_int[of 10] by simp_all

lemma stuck_single:
  "newton_step [Fin 5] (Fin (- 1)) (start_state [Fin 5] (Fin 5)) = Continue (start_state [Fin 5] (Fin 5))"
  by (simp add: newton_step_def start_state_def dsub_def rnd_def DBL_MAX_def dle_def
        derivatives_single Let_def fl64_five fl64_ten)

text \<open>
  Claim C5. \<open>solve_vector\<close> runs the loop from the state with \<open>Iter = 0\<close> and no warning. The
  body of the iteration is entered only with \<open>Iter \<le> 19\<close>, so every state of the loop has
  \<open>Iter \<le> 20\<close>: at most 20 passes. A pass that continues met neither the range criterion nor
  the step criterion. When 20 passes have continued, the loop ends without error, with the
  warning printed and the last computed \<open>M[k]\<close>; the warning is printed in no other case, and
  a loop that ends earlier ends on a pass that breaks. The loop over the vectors then stores
  \<open>M[k]\<close>, records the warning for the 1-based index \<open>k + 1\<close> and goes on with the next vector;
  the call on a single row returns the \<open>M\<close> of that row, with the warning for index 1 when the
  cap was reached.
\<close>

theorem iteration_cap:
  "solve_vector TolArg xs =
     (case std_sort xs of
        Inl e \<Rightarrow> Inl e
      | Inr xvec \<Rightarrow>
          (case median_start xvec of
             Inl e \<Rightarrow> Inl e
           | Inr M0 \<Rightarrow> newton_loop xvec (start_Tol TolArg xvec) (start_state xvec M0))) \<and>
   mexFunction [row_vector xs] =
     (case solve_vector None xs of
        Inl e \<Rightarrow> Inl e
      | Inr st \<Rightarrow> Inr (scalar (M_k st), if warned st then [1] else [])) \<and>
   Iter (start_state xvec M0) = 0 \<and> \<not> warned (start_state xvec M0) \<and> M_k (start_state xvec M0) = M0 \<and>
   (newton_reach xvec Tol (start_state xvec M0) st \<longrightarrow> Iter st \<le> 20) \<and>
   (newton_reach xvec Tol (start_state xvec M0) st \<and> Iter st = 20 \<longrightarrow>
      newton_loop xvec Tol (start_state xvec M0) = Inr st \<and> warned st) \<and>
   (newton_loop xvec Tol (start_state xvec M0) = Inr st \<longrightarrow>
      newton_reach xvec Tol (start_state xvec M0) st \<and> Iter st \<le> 20 \<and>
      (warned st \<longleftrightarrow> Iter st = 20) \<and>
      (Iter st < 20 \<longrightarrow> newton_step xvec Tol st = Break)) \<and>
   (newton_step xvec Tol s = Continue s' \<longrightarrow>
      \<not> dle (range_ab s) Tol \<and>
      (\<exists>TU. derivatives xvec (M_k s) 0 (Fin 0, Fin 0) = Inr TU \<and>
            \<not> dlt (dabs (ddiv (fst TU) (snd TU))) Tol)) \<and>
   (solve_vector TolArg xs = Inr st \<longrightarrow> Iter st \<le> 20 \<and> (warned st \<longleftrightarrow> Iter st = 20)) \<and>
   (k < n \<and> copy_vector x dim' m n k = Inr xs \<and> solve_vector TolArg xs = Inr st \<longrightarrow>
      vectors_loop x dim' m n TolArg k out =
        vectors_loop x dim' m n TolArg (k + 1)
          (fst out @ [M_k st], if warned st then snd out @ [k + 1] else snd out))"
proof -
  let ?s0 = "start_state xvec M0"
  have s0: "Iter ?s0 = 0" "\<not> warned ?s0" "M_k ?s0 = M0" by (simp_all add: start_state_def)
  have i0: "Iter (start_state v w) \<le> MaxIter + 1" for v w by (simp add: start_state_def)
  have gen: "newton_reach v T (start_state v w) st \<and> Iter st \<le> 20 \<and>
             (warned st \<longleftrightarrow> Iter st = 20) \<and> (Iter st < 20 \<longrightarrow> newton_step v T st = Break)"
    if "newton_loop v T (start_state v w) = Inr st" for v T w
  proof -
    from newton_loop_reach[OF newton_reach.start that]
    have r: "newton_reach v T (start_state v w) st"
      and b: "MaxIter < Iter st \<or> newton_step v T st = Break" by simp_all
    from newton_reach_Iter[OF r i0] r b show ?thesis
      by (auto simp: MaxIter_def start_state_def)
  qed
  have c1: "Iter st \<le> 20" if "newton_reach xvec Tol ?s0 st"
    using newton_reach_Iter[OF that i0] by (simp add: MaxIter_def)
  have c2: "newton_loop xvec Tol ?s0 = Inr st \<and> warned st"
    if "newton_reach xvec Tol ?s0 st \<and> Iter st = 20"
  proof -
    from that have r: "newton_reach xvec Tol ?s0 st" and i: "Iter st = 20" by simp_all
    have "newton_loop xvec Tol st = Inr st"
      using i by (intro newton_loop_exhausted) (simp add: MaxIter_def)
    with newton_reach_loop[OF r] have "newton_loop xvec Tol ?s0 = Inr st" by simp
    moreover have "warned st"
      using newton_reach_Iter[OF r i0] i s0 by (simp add: MaxIter_def)
    ultimately show ?thesis by simp
  qed
  have c4: "vectors_loop x dim' m n TolArg k out =
          vectors_loop x dim' m n TolArg (k + 1)
            (fst out @ [M_k st], if warned st then snd out @ [k + 1] else snd out)"
    if "k < n \<and> copy_vector x dim' m n k = Inr xs \<and> solve_vector TolArg xs = Inr st"
    using that by (subst vectors_loop.simps) simp
  have c5: "\<not> dle (range_ab s) Tol \<and>
            (\<exists>TU. derivatives xvec (M_k s) 0 (Fin 0, Fin 0) = Inr TU \<and>
                  \<not> dlt (dabs (ddiv (fst TU) (snd TU))) Tol)"
    if "newton_step xvec Tol s = Continue s'"
    using that by (auto simp: newton_step_def Let_def split: if_splits sum.splits)
  have c6: "Iter st \<le> 20 \<and> (warned st \<longleftrightarrow> Iter st = 20)" if "solve_vector TolArg xs = Inr st"
  proof -
    from that obtain v w where "newton_loop v (start_Tol TolArg v) (start_state v w) = Inr st"
      by (auto simp: solve_vector_eq split: sum.splits)
    from gen[OF this] show ?thesis by simp
  qed
  from solve_vector_eq[of TolArg xs] mexFunction_row_vector[of xs] s0 c1 c2 gen[of xvec Tol M0]
    c4 c5 c6
  show ?thesis by blast
qed

theorem iteration_cap_witness:
  "mexFunction [scalar (Fin 5), scalar (Fin 1), scalar (Fin (- 1))] = Inr (scalar (Fin 5), [1])"
proof -
  let ?s = "start_state [Fin 5] (Fin 5)"
  let ?f = "?s\<lparr>Iter := 20, warned := True\<rparr>"
  have e: "?s\<lparr>Iter := 0, warned := False\<rparr> = ?s" by (simp add: start_state_def)
  from newton_reach_stuck[OF stuck_single, of 20]
  have r: "newton_reach [Fin 5] (Fin (- 1)) ?s ?f"
    by (simp add: e MaxIter_def)
  have so: "std_sort [Fin 5] = Inr [Fin 5]" by (simp add: std_sort_def dsort_def)
  have tol: "start_Tol (Some (Fin (- 1))) [Fin 5] = Fin (- 1)" by (simp add: start_Tol_def)
  have cv: "copy_vector (scalar (Fin 5)) 2 (Suc 0) (Suc 0) 0 = Inr [Fin 5]"
    by (simp add: copy_vector_def scalar_def list_all_iff Let_def)
  note t = iteration_cap[of "Some (Fin (- 1))" "[Fin 5]" "[Fin 5]" "Fin 5" "Fin (- 1)" ?f
      ?s ?s 0 "Suc 0" "scalar (Fin 5)" 2 "Suc 0" "([], [])"]
  have z: "(0::nat) < Suc 0" by simp
  have i20: "Iter ?f = 20" by simp
  from t r i20 have nl: "newton_loop [Fin 5] (Fin (- 1)) ?s = Inr ?f" by blast
  from t have "solve_vector (Some (Fin (- 1))) [Fin 5] =
     (case std_sort [Fin 5] of
        Inl e \<Rightarrow> Inl e
      | Inr xvec \<Rightarrow>
          (case median_start xvec of
             Inl e \<Rightarrow> Inl e
           | Inr M0 \<Rightarrow> newton_loop xvec (start_Tol (Some (Fin (- 1))) xvec) (start_state xvec M0)))"
    by blast
  then have sv: "solve_vector (Some (Fin (- 1))) [Fin 5] = Inr ?f"
    by (simp add: so median_start_single tol nl)
  note c = t[THEN conjunct2, THEN conjunct2, THEN conjunct2, THEN conjunct2, THEN conjunct2,
      THEN conjunct2, THEN conjunct2, THEN conjunct2, THEN conjunct2, THEN conjunct2]
  from c[THEN mp, OF conjI[OF z conjI[OF cv sv]]]
  have vl: "vectors_loop (scalar (Fin 5)) 2 (Suc 0) (Suc 0) (Some (Fin (- 1))) 0 ([], []) =
        Inr ([Fin 5], [1])"
    by (simp add: vectors_loop_done[of _ _ _ "Suc 0"] start_state_def)
  have rd: "read_dim [scalar (Fin 5), scalar (Fin 1), scalar (Fin (- 1))] = Inr 1"
    by (simp add: read_dim_def first_elem_def scalar_def short_of_double_in_range trunc_def)
  have rt: "read_Tol [scalar (Fin 5), scalar (Fin 1), scalar (Fin (- 1))] = Inr (Some (Fin (- 1)))"
    by (simp add: read_Tol_def first_elem_def scalar_def)
  show ?thesis
    using vl by (simp add: mexFunction_def rd rt smooth_all_def) (simp add: scalar_def)
qed

lemma twice_DBL_MAX: "rnd (DBL_MAX + DBL_MAX) = PInf"
proof -
  define x :: real where "x = DBL_MAX + DBL_MAX"
  have g: "x = of_int (2 ^ 53 - 1) * 2 powi 972"
    by (simp add: x_def DBL_MAX_def)
  have x0: "x \<noteq> 0" and lt: "\<bar>x\<bar> < 2 powi (972 + int 53)"
    by (simp_all add: x_def DBL_MAX_def)
  have u: "ulp_exp 53 (- 1074) x \<le> 972"
    using x0 lt by (intro ulp_exp_abs_le) simp_all
  from round_bin_grid[OF u g] have "fl64 x = x" by (simp add: fl64_def)
  moreover have "DBL_MAX < x" by (simp add: x_def DBL_MAX_def)
  ultimately show ?thesis by (simp add: rnd_def x_def)
qed

text \<open>
  Claim C4 does not hold of the code for finite values whose sum overflows: for
  \<open>[DBL_MAX, DBL_MAX]\<close> the starting value \<open>(xvec[1] + xvec[0]) * 0.5\<close>, which the comment calls
  the median when \<open>m\<close> is even, is infinite; the range is 0, the first test breaks, and \<open>Inf\<close>
  is returned, outside \<open>[min (x), max (x)]\<close>.
\<close>

theorem median_overflow:
  "mexFunction [row_vector [Fin DBL_MAX, Fin DBL_MAX]] = Inr (scalar PInf, [])"
proof -
  let ?xs = "[Fin DBL_MAX, Fin DBL_MAX]"
  have so: "std_sort ?xs = Inr ?xs" by (simp add: std_sort_def dsort_def)
  have "dadd (Fin DBL_MAX) (Fin DBL_MAX) = PInf"
    by (simp only: dadd.simps twice_DBL_MAX)
  then have md: "median_start ?xs = Inr PInf"
    by (simp add: median_start_pair inf_of_sign_def)
  have st: "start_state ?xs PInf =
      \<lparr>a_bnd = Fin DBL_MAX, b_bnd = Fin DBL_MAX, range_ab = Fin 0, M_k = PInf, Iter = 0, warned = False\<rparr>"
    by (simp add: start_state_def dsub_def)
  have tol: "start_Tol None ?xs = Fin 0"
    by (simp add: start_Tol_def dsub_def)
  have "newton_step ?xs (Fin 0) (start_state ?xs PInf) = Break"
    by (simp add: st newton_step_def dle_def)
  then have "newton_loop ?xs (Fin 0) (start_state ?xs PInf) = Inr (start_state ?xs PInf)"
    by (intro newton_loop_break) (simp_all add: st)
  then have sv: "solve_vector None ?xs = Inr (start_state ?xs PInf)"
    by (simp add: solve_vector_eq so md tol)
  show ?thesis
    by (simp add: mexFunction_row_vector sv st)
qed

lemma derivatives_error: "derivatives xvec Mk j TU = Inl e \<Longrightarrow> e = NumericError"
proof (induction xvec Mk j TU rule: derivatives.induct)
  case (1 xvec Mk j TU)
  from "1.prems" show ?case
    by (subst (asm) derivatives.simps) (auto split: if_splits dest: "1.IH")
qed

lemma newton_loop_error: "newton_loop xvec Tol st = Inl e \<Longrightarrow> e = NumericError"
proof (induction xvec Tol st rule: newton_loop.induct)
  case (1 xvec Tol st)
  show ?case
  proof (cases "newton_step xvec Tol st")
    case Break
    with "1.prems" show ?thesis by (simp add: newton_loop.simps[of _ _ st] split: if_splits)
  next
    case (Raise e')
    then have "e' = NumericError"
      by (auto simp: newton_step_def Let_def split: if_splits sum.splits dest: derivatives_error)
    with Raise "1.prems" show ?thesis by (simp add: newton_loop.simps[of _ _ st] split: if_splits)
  next
    case (Continue st')
    with "1.prems" "1.IH"[OF _ Continue] show ?thesis
      by (simp add: newton_loop.simps[of _ _ st] split: if_splits)
  qed
qed

lemma solve_vector_error: "solve_vector TolArg xs = Inl e \<Longrightarrow> e \<noteq> InvalidArgument"
  by (auto simp: solve_vector_eq std_sort_def median_start_def Let_def
      split: sum.splits if_splits dest: newton_loop_error)

lemma vectors_loop_error:
  "vectors_loop x dim' m n TolArg k out = Inl e \<Longrightarrow> e \<noteq> InvalidArgument"
proof (induction x dim' m n TolArg k out rule: vectors_loop.induct)
  case (1 x dim' m n TolArg k out)
  from "1.prems" show ?case
    by (subst (asm) vectors_loop.simps)
       (auto simp: copy_vector_def Let_def split: if_splits sum.splits
             dest: "1.IH" solve_vector_error)
qed

lemma smooth_all_error: "smooth_all x d TolArg = Inl e \<Longrightarrow> e \<noteq> InvalidArgument"
  by (auto simp: smooth_all_def Let_def split: sum.splits dest: vectors_loop_error)

lemma read_Tol_error: "read_Tol prhs = Inl e \<Longrightarrow> e \<noteq> InvalidArgument"
  by (auto simp: read_Tol_def first_elem_def split: if_splits sum.splits list.splits)

text \<open>
  Outside the range of \<open>short int\<close> the low 16 bits decide: 65537 is converted to 1, and a
  NaN to 0.
\<close>

lemma short_of_double_wraps: "short_of_double (Fin 65537) = 1" "short_of_double NaN = 0"
  by (simp_all add: short_of_double_def short_of_int_def int_of_float_def trunc_def
      INT_MIN_def INT_MAX_def)

text \<open>
  Claim C10 as stated fails: a supplied \<open>dim\<close> of 2.5 is outside \<open>{1, 2}\<close>, but the conversion
  to \<open>short int\<close> discards the fraction and the call is accepted.
\<close>

theorem dim_fraction_counterexample:
  "mexFunction [scalar (Fin 5), scalar (Fin (5 / 2))] = Inr (scalar (Fin 5), [])"
proof -
  have rd: "read_dim [scalar (Fin 5), scalar (Fin (5 / 2))] = Inr 2"
    by (simp add: read_dim_def first_elem_def scalar_def short_of_double_in_range trunc_def)
  have cv: "copy_vector (scalar (Fin 5)) 2 (Suc 0) (Suc 0) 0 = Inr [Fin 5]"
    by (simp add: copy_vector_def scalar_def list_all_iff Let_def)
  have vl: "vectors_loop (scalar (Fin 5)) 2 1 1 None 0 ([], []) = Inr ([Fin 5], [])"
    by (simp add: vectors_loop.simps[of _ _ _ _ _ 0] cv solve_single vectors_loop_done[of _ _ _ "Suc 0"])
  show ?thesis
    using vl by (simp add: mexFunction_def rd read_Tol_def smooth_all_def) (simp add: scalar_def)
qed

text \<open>
  Claim C10 (amended). The check of \<open>dim\<close> is made on the value converted to \<open>short int\<close> and
  comes before the override for a leading dimension of 1: whenever the converted value is
  neither 1 nor 2 the call fails with the error, for every \<open>x\<close>, also one with \<open>sz[0] == 1\<close>;
  whenever it is 1 or 2 that error is not raised. For a value strictly between -32769 and 32768
  the converted value is the value with its fraction discarded.
\<close>

theorem dim_checked_first:
  assumes "first_elem dimarg = Inr v"
  shows "(short_of_double v \<noteq> 1 \<and> short_of_double v \<noteq> 2 \<longrightarrow>
            mexFunction (x # dimarg # rest) = Inl InvalidArgument) \<and>
         (short_of_double v = 1 \<or> short_of_double v = 2 \<longrightarrow>
            mexFunction (x # dimarg # rest) \<noteq> Inl InvalidArgument) \<and>
         (\<forall>r. v = Fin r \<and> - 32769 < r \<and> r < 32768 \<longrightarrow> short_of_double v = trunc r)"
proof (intro conjI impI allI)
  show "mexFunction (x # dimarg # rest) = Inl InvalidArgument"
    if "short_of_double v \<noteq> 1 \<and> short_of_double v \<noteq> 2"
    using that assms by (simp add: mexFunction_def read_dim_def)
  show "mexFunction (x # dimarg # rest) \<noteq> Inl InvalidArgument"
    if "short_of_double v = 1 \<or> short_of_double v = 2"
    using that assms
    by (auto simp: mexFunction_def read_dim_def split: sum.splits
        dest: read_Tol_error smooth_all_error)
  show "short_of_double v = trunc r" if "v = Fin r \<and> - 32769 < r \<and> r < 32768" for r
    using that by (simp add: short_of_double_in_range)
qed

theorem dim_checked_first_witness:
  "sz0 (scalar (Fin 5)) = 1 \<and>
   mexFunction [scalar (Fin 5), scalar (Fin 3)] = Inl InvalidArgument \<and>
   mexFunction [scalar (Fin 5), scalar (Fin (1 / 2))] = Inl InvalidArgument \<and>
   mexFunction [scalar (Fin 5), scalar NaN] = Inl InvalidArgument \<and>
   mexFunction [scalar (Fin 5), scalar (Fin (5 / 2))] \<noteq> Inl InvalidArgument \<and>
   mexFunction [scalar (Fin 5), scalar (Fin 65537)] \<noteq> Inl InvalidArgument \<and>
   short_of_double (Fin (5 / 2)) = 2"
proof -
  have a: "first_elem (scalar (Fin r)) = Inr (Fin r)" for r
    by (simp add: first_elem_def scalar_def)
  have a': "first_elem (scalar NaN) = Inr NaN"
    by (simp add: first_elem_def scalar_def)
  have b: "short_of_double (Fin 3) = 3" "short_of_double (Fin (1 / 2)) = 0"
    "short_of_double (Fin (5 / 2)) = 2"
    by (simp_all add: short_of_double_in_range trunc_def)
  from dim_checked_first[OF a, of 3 "scalar (Fin 5)" "[]"]
    dim_checked_first[OF a, of "1 / 2" "scalar (Fin 5)" "[]"]
    dim_checked_first[OF a', of "scalar (Fin 5)" "[]"]
    dim_checked_first[OF a, of "5 / 2" "scalar (Fin 5)" "[]"]
    dim_checked_first[OF a, of 65537 "scalar (Fin 5)" "[]"] b short_of_double_wraps
  show ?thesis
    by (simp add: scalar_def)
qed

end
